theory Spec2Isabelle
  imports Complex_Main "HOL-Library.Sublist"
begin

section \<open>TokenBucket (app/services/api_queue.py)\<close>

text \<open>
  The Python class keeps four attributes.  \<open>capacity\<close> and the amounts passed to
  \<open>consume\<close> and \<open>get_wait_time\<close> are Python ints; \<open>refill_rate\<close>, \<open>tokens\<close> and
  \<open>last_refill\<close> hold floats once the bucket is in use (\<open>tokens_per_minute / 60\<close>,
  \<open>time.time()\<close>).  Floats are idealised as exact reals: rounding is not modelled.
  \<open>time.time()\<close> is an explicit argument \<open>now\<close> of every operation.
\<close>

record token_bucket =
  capacity :: real
  refill_rate :: real
  tokens :: real
  last_refill :: real

datatype py_error =
    ZeroDivisionError | IndexError | InvalidStateError | RateLimitError | ProviderError string

text \<open>\<open>TokenBucket.__init__\<close>: the bucket starts full.\<close>

definition init_bucket :: "int \<Rightarrow> real \<Rightarrow> real \<Rightarrow> token_bucket" where
  "init_bucket cap rate now =
     \<lparr>capacity = of_int cap, refill_rate = rate, tokens = of_int cap, last_refill = now\<rparr>"

text \<open>\<open>TokenBucket.refill\<close>.\<close>

definition refill :: "token_bucket \<Rightarrow> real \<Rightarrow> token_bucket" where
  "refill b now =
     (let elapsed = now - last_refill b;
          refill_amount = elapsed * refill_rate b
      in b\<lparr>tokens := min (capacity b) (tokens b + refill_amount), last_refill := now\<rparr>)"

text \<open>\<open>TokenBucket.consume\<close>: the new bucket and the returned bool.\<close>

definition consume :: "token_bucket \<Rightarrow> real \<Rightarrow> int \<Rightarrow> token_bucket \<times> bool" where
  "consume b now n =
     (let b1 = refill b now
      in if of_int n \<le> tokens b1 then (b1\<lparr>tokens := tokens b1 - of_int n\<rparr>, True)
         else (b1, False))"

text \<open>
  \<open>TokenBucket.get_wait_time\<close>: the new bucket and the returned wait, or the
  ZeroDivisionError Python raises on the division when \<open>refill_rate\<close> is zero.
\<close>

definition get_wait_time :: "token_bucket \<Rightarrow> real \<Rightarrow> int \<Rightarrow> token_bucket \<times> (py_error + real)" where
  "get_wait_time b now n =
     (let b1 = refill b now
      in if of_int n \<le> tokens b1 then (b1, Inr 0)
         else (let additional_tokens_needed = of_int n - tokens b1
               in if refill_rate b1 = 0 then (b1, Inl ZeroDivisionError)
                  else (b1, Inr (additional_tokens_needed / refill_rate b1))))"

text \<open>
  A history of a bucket: each entry is the time that passes on the clock since the
  previous operation, and the method then called.  \<open>run_ops\<close> lists the bucket
  after each operation.
\<close>

datatype bucket_op = Refill | Consume int | GetWaitTime int

fun op_amount :: "bucket_op \<Rightarrow> int" where
  "op_amount Refill = 0"
| "op_amount (Consume n) = n"
| "op_amount (GetWaitTime n) = n"

fun apply_op :: "token_bucket \<Rightarrow> real \<Rightarrow> bucket_op \<Rightarrow> token_bucket" where
  "apply_op b now Refill = refill b now"
| "apply_op b now (Consume n) = fst (consume b now n)"
| "apply_op b now (GetWaitTime n) = fst (get_wait_time b now n)"

fun run_ops :: "token_bucket \<Rightarrow> real \<Rightarrow> (real \<times> bucket_op) list \<Rightarrow> token_bucket list" where
  "run_ops b t [] = []"
| "run_ops b t ((dt, opn) # rest) =
     apply_op b (t + dt) opn # run_ops (apply_op b (t + dt) opn) (t + dt) rest"

definition bucket_inv :: "token_bucket \<Rightarrow> bool" where
  "bucket_inv b = (0 \<le> tokens b \<and> tokens b \<le> capacity b)"

section \<open>Python string operations used by the queue\<close>

text \<open>
  A Python \<open>str\<close> is modelled as a \<open>string\<close>, one \<open>char\<close> per character, so
  \<open>len\<close> is \<open>length\<close>.  \<open>py_split sep s\<close> is \<open>s.split(sep)\<close> for a non-empty
  separator: the occurrences of \<open>sep\<close> are found from the left and do not overlap.
  \<open>py_replace old new s\<close> is \<open>s.replace(old, new)\<close> for a non-empty \<open>old\<close>, and
  \<open>py_join sep xs\<close> is \<open>sep.join(xs)\<close>.
\<close>

fun py_split :: "string \<Rightarrow> string \<Rightarrow> string list" where
  "py_split sep [] = [[]]"
| "py_split sep (c # cs) =
     (if sep \<noteq> [] \<and> prefix sep (c # cs) then [] # py_split sep (drop (length sep - 1) cs)
      else (case py_split sep cs of
              [] \<Rightarrow> [[c]]
            | p # ps \<Rightarrow> (c # p) # ps))"

fun py_replace :: "string \<Rightarrow> string \<Rightarrow> string \<Rightarrow> string" where
  "py_replace old new [] = []"
| "py_replace old new (c # cs) =
     (if old \<noteq> [] \<and> prefix old (c # cs) then new @ py_replace old new (drop (length old - 1) cs)
      else c # py_replace old new cs)"

fun py_join :: "string \<Rightarrow> string list \<Rightarrow> string" where
  "py_join sep [] = []"
| "py_join sep [x] = x"
| "py_join sep (x # y # ys) = x @ sep @ py_join sep (y # ys)"

section \<open>ClaudeAPIQueue: token estimate and text splitter\<close>

text \<open>\<open>ClaudeAPIQueue.estimate_tokens\<close>: \<open>len(text) // 4 + 1\<close>.\<close>

definition estimate_tokens :: "string \<Rightarrow> int" where
  "estimate_tokens text = int (length text) div 4 + 1"

text \<open>
  \<open>ClaudeAPIQueue._split_text\<close>.  The three nested loops share the variables
  \<open>chunks\<close> and \<open>current_chunk\<close>; each loop body is a step on that pair and each loop
  a \<open>foldl\<close> over the pieces.  \<open>max_tokens\<close> is a Python int and may be negative.
\<close>

type_synonym split_state = "string list \<times> string"

definition flush_chunk :: "split_state \<Rightarrow> split_state" where
  "flush_chunk st = (case st of (chunks, current_chunk) \<Rightarrow>
     if current_chunk \<noteq> [] then (chunks @ [current_chunk], []) else (chunks, current_chunk))"

definition word_step :: "int \<Rightarrow> split_state \<Rightarrow> string \<Rightarrow> split_state" where
  "word_step max_chars st word = (case st of (chunks, current_chunk) \<Rightarrow>
     if int (length current_chunk) + int (length word) + 1 > max_chars
     then (chunks @ [current_chunk], word @ '' '')
     else (chunks, current_chunk @ word @ '' ''))"

definition sentence_step :: "int \<Rightarrow> split_state \<Rightarrow> string \<Rightarrow> split_state" where
  "sentence_step max_chars st sentence = (case st of (chunks, current_chunk) \<Rightarrow>
     if int (length current_chunk) + int (length sentence) > max_chars
     then (let st1 = flush_chunk (chunks, current_chunk)
           in if int (length sentence) > max_chars
              then foldl (word_step max_chars) st1 (py_split '' '' sentence)
              else (fst st1, sentence @ '' ''))
     else (chunks, current_chunk @ sentence @ '' ''))"

definition paragraph_step :: "int \<Rightarrow> split_state \<Rightarrow> string \<Rightarrow> split_state" where
  "paragraph_step max_chars st paragraph = (case st of (chunks, current_chunk) \<Rightarrow>
     if int (length current_chunk) + int (length paragraph) > max_chars
     then (let st1 = flush_chunk (chunks, current_chunk)
           in if int (length paragraph) > max_chars
              then foldl (sentence_step max_chars) st1
                     (py_split ''\<newline>'' (py_replace ''. '' ''.\<newline>'' paragraph))
              else (fst st1, paragraph @ ''\<newline>\<newline>''))
     else (chunks, current_chunk @ paragraph @ ''\<newline>\<newline>''))"

definition split_text :: "string \<Rightarrow> int \<Rightarrow> string list" where
  "split_text text max_tokens =
     (let max_chars = max_tokens * 4
      in if int (length text) \<le> max_chars then [text]
         else fst (flush_chunk
                (foldl (paragraph_step max_chars) ([], []) (py_split ''\<newline>\<newline>'' text))))"

section \<open>More Python string operations\<close>

text \<open>
  \<open>py_split1 sep s\<close> is \<open>s.split(sep, 1)\<close>, \<open>py_contains sub s\<close> is \<open>sub in s\<close>,
  \<open>py_strip\<close> is \<open>str.strip()\<close> (the whitespace characters below code point 256) and
  \<open>str_nat\<close> is \<open>str\<close> of a non-negative int, as an f-string renders it.
\<close>

fun py_split1 :: "string \<Rightarrow> string \<Rightarrow> string list" where
  "py_split1 sep [] = [[]]"
| "py_split1 sep (c # cs) =
     (if sep \<noteq> [] \<and> prefix sep (c # cs) then [[], drop (length sep - 1) cs]
      else (case py_split1 sep cs of
              [] \<Rightarrow> [[c]]
            | p # ps \<Rightarrow> (c # p) # ps))"

fun py_contains :: "string \<Rightarrow> string \<Rightarrow> bool" where
  "py_contains sub [] = (sub = [])"
| "py_contains sub (c # cs) = (prefix sub (c # cs) \<or> py_contains sub cs)"

definition is_space :: "char \<Rightarrow> bool" where
  "is_space c = (let n = of_char c :: nat
                 in (9 \<le> n \<and> n \<le> 13) \<or> (28 \<le> n \<and> n \<le> 32) \<or> n = 133 \<or> n = 160)"

definition py_strip :: "string \<Rightarrow> string" where
  "py_strip s = rev (dropWhile is_space (rev (dropWhile is_space s)))"

definition digit_char :: "nat \<Rightarrow> char" where
  "digit_char d = ''0123456789'' ! d"

fun str_nat :: "nat \<Rightarrow> string" where
  "str_nat n = (if n < 10 then [digit_char n] else str_nat (n div 10) @ [digit_char (n mod 10)])"

declare str_nat.simps [simp del]

section \<open>ClaudeAPIQueue: the queue, run by one caller at a time\<close>

text \<open>
  A queued request is the dict \<open>add_request\<close> appends; its future is named by a number.
  (\<open>added_time\<close> is only logged and is left out, as is all logging.)
\<close>

record request =
  prompt :: string
  max_tokens :: int
  temperature :: real
  estimated_tokens :: int
  future :: nat

text \<open>A call of the provider, as \<open>_make_api_call\<close> makes it, with what came back.\<close>

record api_call =
  call_prompt :: string
  call_max_tokens :: int
  call_temperature :: real
  call_result :: "py_error + string"

text \<open>
  The attributes of the \<open>ClaudeAPIQueue\<close> object the code reads and writes
  (\<open>token_bucket\<close>, \<open>queue\<close>, \<open>processing\<close>, \<open>max_chunk_size\<close>), and what the event
  loop and the provider hold: the futures resolved so far, in the order they were
  resolved, with their result or exception; the number of futures created; the calls
  made of the provider, in order; and the clock.
\<close>

record queue_state =
  token_bucket :: token_bucket
  queue :: "request list"
  processing :: bool
  max_chunk_size :: int
  resolved :: "(nat \<times> (py_error + string)) list"
  next_future :: nat
  calls :: "api_call list"
  clock :: real

text \<open>
  The provider is a parameter: \<open>respond env k p m t\<close> is what the \<open>k\<close>-th call of the
  provider answers to prompt \<open>p\<close> (a text, or the exception raised), and
  \<open>latency env k\<close> is how long that call takes.
\<close>

record environment =
  respond :: "nat \<Rightarrow> string \<Rightarrow> int \<Rightarrow> real \<Rightarrow> py_error + string"
  latency :: "nat \<Rightarrow> real"

text \<open>
  \<open>ClaudeAPIQueue.__init__\<close> (the API key and the client are left out): a bucket of
  \<open>tokens_per_minute\<close> refilled at \<open>tokens_per_minute / 60\<close> per second, an empty
  queue, and 15000 as the per-call ceiling.
\<close>

definition init_queue :: "int \<Rightarrow> real \<Rightarrow> queue_state" where
  "init_queue tokens_per_minute now =
     \<lparr>token_bucket = init_bucket tokens_per_minute (of_int tokens_per_minute / 60) now,
      queue = [], processing = False, max_chunk_size = 15000,
      resolved = [], next_future = 0, calls = [], clock = now\<rparr>"

text \<open>\<open>asyncio.sleep(d)\<close>: the clock moves on by \<open>d\<close>; a delay \<open>\<le> 0\<close> takes no time.\<close>

definition sleep :: "queue_state \<Rightarrow> real \<Rightarrow> queue_state" where
  "sleep s d = s\<lparr>clock := clock s + max 0 d\<rparr>"

text \<open>\<open>loop.create_future()\<close>.\<close>

definition create_future :: "queue_state \<Rightarrow> queue_state \<times> nat" where
  "create_future s = (s\<lparr>next_future := next_future s + 1\<rparr>, next_future s)"

text \<open>
  \<open>future.set_result\<close> and \<open>future.set_exception\<close>: a future that is already done
  raises InvalidStateError.
\<close>

definition set_future :: "queue_state \<Rightarrow> nat \<Rightarrow> py_error + string \<Rightarrow> py_error + queue_state" where
  "set_future s fut r =
     (if fut \<in> fst ` set (resolved s) then Inl InvalidStateError
      else Inr (s\<lparr>resolved := resolved s @ [(fut, r)]\<rparr>))"

text \<open>
  \<open>await future\<close> once no task can run any more: the result or exception of the
  future, or None when nothing resolved it and the caller waits for ever.
\<close>

definition await_future :: "queue_state \<Rightarrow> nat \<Rightarrow> (py_error + string) option" where
  "await_future s fut = map_of (resolved s) fut"

text \<open>
  \<open>_make_api_call\<close>: the call and its answer; after a RateLimitError it sleeps 30
  seconds and raises the error again.
\<close>

definition make_api_call ::
  "environment \<Rightarrow> queue_state \<Rightarrow> string \<Rightarrow> int \<Rightarrow> real \<Rightarrow> queue_state \<times> (py_error + string)" where
  "make_api_call env s p m t =
     (let k = length (calls s);
          r = respond env k p m t;
          s1 = s\<lparr>calls := calls s @ [\<lparr>call_prompt = p, call_max_tokens = m,
                                       call_temperature = t, call_result = r\<rparr>],
                 clock := clock s + max 0 (latency env k)\<rparr>
      in if r = Inl RateLimitError then (sleep s1 30, r) else (s1, r))"

text \<open>
  The body of the \<open>while self.queue\<close> loop of \<open>_process_queue\<close>, in the pieces
  between its awaits.  \<open>drain_peek\<close> (lines 302-306) reads the head request and asks the
  bucket for the wait; the ZeroDivisionError of \<open>get_wait_time\<close> is raised outside the
  \<open>try\<close>.  \<open>drain_admit\<close> (lines 317-325) pops the head of the queue (IndexError on an
  empty queue) and consumes the estimate of \<open>request\<close>, dropping the bool that
  \<open>consume\<close> returns.  \<open>drain_resolve\<close> (lines 335 and 340-342) resolves the future
  of \<open>request\<close>: an exception of \<open>set_result\<close> is caught by the \<open>except\<close> clause, one
  of \<open>set_exception\<close> leaves the coroutine.
\<close>

definition drain_peek :: "queue_state \<Rightarrow> request \<Rightarrow> queue_state \<times> (py_error + real)" where
  "drain_peek s request =
     (let (b, w) = get_wait_time (token_bucket s) (clock s) (estimated_tokens request)
      in (s\<lparr>token_bucket := b\<rparr>, w))"

definition drain_admit :: "queue_state \<Rightarrow> request \<Rightarrow> py_error + queue_state" where
  "drain_admit s request =
     (case queue s of
        [] \<Rightarrow> Inl IndexError
      | _ # rest \<Rightarrow>
          Inr (s\<lparr>queue := rest,
                 token_bucket := fst (consume (token_bucket s) (clock s) (estimated_tokens request))\<rparr>))"

definition drain_resolve ::
  "queue_state \<Rightarrow> request \<Rightarrow> py_error + string \<Rightarrow> py_error + queue_state" where
  "drain_resolve s request r =
     (case r of
        Inr response \<Rightarrow>
          (case set_future s (future request) (Inr response) of
             Inr s1 \<Rightarrow> Inr s1
           | Inl e \<Rightarrow> set_future s (future request) (Inl e))
      | Inl e \<Rightarrow> set_future s (future request) (Inl e))"

text \<open>
  One turn of the loop, run without interruption: the new state, and the exception
  that leaves \<open>_process_queue\<close>, if any.
\<close>

definition drain_iteration :: "environment \<Rightarrow> queue_state \<Rightarrow> queue_state \<times> py_error option" where
  "drain_iteration env s =
     (let request = hd (queue s);
          (s1, w) = drain_peek s request
      in case w of
           Inl e \<Rightarrow> (s1, Some e)
         | Inr wait_time \<Rightarrow>
             (let s2 = (if wait_time > 0 then sleep s1 wait_time else s1);
                  (s3, r) = (case drain_admit s2 request of
                               Inl e \<Rightarrow> (s2, Inl e)
                             | Inr s2a \<Rightarrow> make_api_call env s2a (prompt request)
                                            (max_tokens request) (temperature request))
              in case drain_resolve s3 request r of
                   Inl e \<Rightarrow> (s3, Some e)
                 | Inr s4 \<Rightarrow> (s4, None)))"

lemma drain_iteration_queue:
  assumes "queue s \<noteq> []" and "drain_iteration env s = (s', None)"
  shows "length (queue s') < length (queue s)"
proof -
  obtain r rest where q: "queue s = r # rest"
    using assms(1) by (cases "queue s") auto
  have peek: "queue (fst (drain_peek s x)) = queue s" for x
    by (simp add: drain_peek_def split: prod.splits)
  have res: "drain_resolve a x y = Inr b \<Longrightarrow> queue b = queue a" for a b x y
    by (auto simp: drain_resolve_def set_future_def split: sum.splits if_splits)
  have call: "make_api_call env a p m t = (b, y) \<Longrightarrow> queue b = queue a" for a b p m t y
    by (auto simp: make_api_call_def Let_def sleep_def split: if_splits)
  show ?thesis
    using assms(2) q peek [of r]
    by (auto simp: drain_iteration_def drain_admit_def Let_def sleep_def
             split: prod.splits sum.splits if_splits list.splits dest!: res call)
qed

function process_loop :: "environment \<Rightarrow> queue_state \<Rightarrow> queue_state" where
  "process_loop env s =
     (if queue s = [] then s\<lparr>processing := False\<rparr>
      else (case drain_iteration env s of
              (s1, Some e) \<Rightarrow> s1
            | (s1, None) \<Rightarrow> process_loop env s1))"
  by pat_completeness auto
termination
  by (relation "measure (\<lambda>(env, s). length (queue s))") (auto simp: drain_iteration_queue)

declare process_loop.simps [simp del]

text \<open>\<open>_process_queue\<close>, run to its end with no other task in between.\<close>

definition process_queue :: "environment \<Rightarrow> queue_state \<Rightarrow> queue_state" where
  "process_queue env s = process_loop env (s\<lparr>processing := True\<rparr>)"

text \<open>
  Lines 138-156 of \<open>add_request\<close> and 203-217 of \<open>_process_large_request\<close>: append the
  request, start \<open>_process_queue\<close> unless \<open>processing\<close> is set, and await the future.

  While a caller waits in an \<open>await\<close>, the event loop runs the other tasks: the drain
  loops and the other callers.  What they do to the queue object is a parameter of the
  caller's code: \<open>others started s\<close> is the state in which the caller is resumed (or in
  which it is left waiting for ever) when it started to wait in state \<open>s\<close>, where
  \<open>started\<close> tells whether it has just created a task of \<open>_process_queue\<close>.  Nothing
  is assumed of \<open>others\<close>.  \<open>sole_caller env\<close> is the case of a single caller and a
  provider \<open>env\<close>: a task just created runs to its end, and nothing else happens.
\<close>

type_synonym scheduler = "bool \<Rightarrow> queue_state \<Rightarrow> queue_state"

definition sole_caller :: "environment \<Rightarrow> scheduler" where
  "sole_caller env started s = (if started then process_queue env s else s)"

definition enqueue :: "queue_state \<Rightarrow> string \<Rightarrow> int \<Rightarrow> real \<Rightarrow> int \<Rightarrow> nat \<Rightarrow> queue_state" where
  "enqueue s p m t est fut =
     s\<lparr>queue := queue s @ [\<lparr>prompt = p, max_tokens = m, temperature = t,
                              estimated_tokens = est, future = fut\<rparr>]\<rparr>"

definition submit_and_await ::
  "scheduler \<Rightarrow> queue_state \<Rightarrow> string \<Rightarrow> int \<Rightarrow> real \<Rightarrow> int \<Rightarrow> nat
     \<Rightarrow> queue_state \<times> (py_error + string) option" where
  "submit_and_await others s p m t est fut =
     (let s1 = enqueue s p m t est fut;
          s2 = others (\<not> processing s1) s1
      in (s2, await_future s2 fut))"

text \<open>
  \<open>_process_large_request\<close>.  \<open>chunk_plan\<close> is lines 171-182 (the system prompt and
  the chunks), \<open>chunk_prompt\<close> lines 189-192, \<open>chunk_loop\<close> the \<open>for\<close> loop over
  \<open>enumerate(chunks)\<close>: an exception of \<open>await future\<close> leaves the loop and the
  function.  A result of None is a caller that waits for ever.  Besides the state and
  the result, \<open>chunk_loop\<close> returns the requests it has appended to the queue, in order,
  each with what the await of its future gave.
\<close>

definition chunk_plan :: "queue_state \<Rightarrow> string \<Rightarrow> int \<Rightarrow> string \<times> string list" where
  "chunk_plan s p m =
     (let (system_prompt, user_prompt) =
            (if py_contains ''Human:'' p
             then (let parts = py_split1 ''Human:'' p
                   in if length parts > 1
                      then (py_strip (parts ! 0), ''Human:'' @ parts ! 1)
                      else ([], p))
             else ([], p));
          chunk_size = max_chunk_size s - estimate_tokens system_prompt - m
      in (system_prompt, split_text user_prompt chunk_size))"

definition chunk_prompt :: "string \<Rightarrow> nat \<Rightarrow> nat \<Rightarrow> string \<Rightarrow> string" where
  "chunk_prompt system_prompt n i chunk =
     (if n > 1
      then system_prompt @ ''\<newline>\<newline>This is part '' @ str_nat (i + 1) @ '' of '' @ str_nat n
             @ '' of a larger document.\<newline>\<newline>'' @ chunk
      else system_prompt @ ''\<newline>\<newline>'' @ chunk)"

type_synonym awaited = "request \<times> (py_error + string) option"

fun chunk_loop ::
  "scheduler \<Rightarrow> queue_state \<Rightarrow> string \<Rightarrow> int \<Rightarrow> real \<Rightarrow> nat \<Rightarrow> (nat \<times> string) list
     \<Rightarrow> string list \<Rightarrow> queue_state \<times> (py_error + string list) option \<times> awaited list" where
  "chunk_loop others s system_prompt m t n [] results = (s, Some (Inr results), [])"
| "chunk_loop others s system_prompt m t n ((i, chunk) # rest) results =
     (let p = chunk_prompt system_prompt n i chunk;
          (s1, fut) = create_future s;
          est = estimate_tokens p + m;
          (s2, r) = submit_and_await others s1 p m t est fut;
          sent = (\<lparr>prompt = p, max_tokens = m, temperature = t,
                   estimated_tokens = est, future = fut\<rparr>, r)
      in case r of
           None \<Rightarrow> (s2, None, [sent])
         | Some (Inl e) \<Rightarrow> (s2, Some (Inl e), [sent])
         | Some (Inr chunk_result) \<Rightarrow>
             (let s3 = (if int i < int n - 1
                        then others False (sleep s2 (5 + of_int est / 10000)) else s2);
                  (s4, r4, more) = chunk_loop others s3 system_prompt m t n rest
                                     (results @ [chunk_result])
              in (s4, r4, sent # more)))"

definition large_request_run ::
  "scheduler \<Rightarrow> queue_state \<Rightarrow> string \<Rightarrow> int \<Rightarrow> real
     \<Rightarrow> queue_state \<times> (py_error + string list) option \<times> awaited list" where
  "large_request_run others s p m t =
     (let (system_prompt, chunks) = chunk_plan s p m
      in chunk_loop others s system_prompt m t (length chunks) (enumerate 0 chunks) [])"

definition process_large_request ::
  "scheduler \<Rightarrow> queue_state \<Rightarrow> string \<Rightarrow> int \<Rightarrow> real \<Rightarrow> queue_state \<times> (py_error + string) option" where
  "process_large_request others s p m t =
     (let (s1, r, sent) = large_request_run others s p m t
      in (s1, map_option (map_sum id (py_join ''\<newline>\<newline>'')) r))"

text \<open>\<open>add_request\<close>.\<close>

definition add_request ::
  "scheduler \<Rightarrow> queue_state \<Rightarrow> string \<Rightarrow> int \<Rightarrow> real \<Rightarrow> queue_state \<times> (py_error + string) option" where
  "add_request others s p m t =
     (let (s1, fut) = create_future s;
          est = estimate_tokens p + m
      in if est > max_chunk_size s1 then process_large_request others s1 p m t
         else submit_and_await others s1 p m t est fut)"

section \<open>ClaudeAPIQueue under the asyncio event loop\<close>

text \<open>
  asyncio runs one task at a time and switches tasks only at an \<open>await\<close> that has to
  wait, so the code between two such awaits runs as one step.  A task of
  \<open>_process_queue\<close> is created by \<open>asyncio.create_task\<close> and first runs at a later
  turn of the event loop; from then on it waits either in
  \<open>await asyncio.sleep(wait_time)\<close> (line 312), in the \<open>asyncio.to_thread\<close> of
  \<open>_make_api_call\<close> (line 360, the call of the provider running in a worker thread),
  or in the \<open>asyncio.sleep(30)\<close> after a RateLimitError (line 376).  The local
  variable \<open>request\<close> of the task is part of its state.
\<close>

datatype task_state =
    Created
  | Sleeping request real
  | Calling request
  | RateLimited request real
  | Finished
  | Crashed py_error

record loop_state =
  qs :: queue_state
  tasks :: "task_state list"

text \<open>
  What the environment does: a caller task runs \<open>add_request p m t\<close> up to its
  \<open>await future\<close>; the event loop runs a created task for the first time; a timer
  fires for a sleeping task; the provider's answer to the call of a task arrives; time
  passes.  Tasks are named by their position in \<open>tasks\<close>, the order of their creation.
\<close>

datatype event =
    Submit string int real
  | Run nat
  | Wake nat
  | Complete nat "py_error + string"
  | Advance real

definition init_loop :: "int \<Rightarrow> real \<Rightarrow> loop_state" where
  "init_loop tokens_per_minute now = \<lparr>qs = init_queue tokens_per_minute now, tasks = []\<rparr>"

text \<open>
  Lines 317-332 of \<open>_process_queue\<close>, up to the await of the provider.  When
  \<open>self.queue.pop(0)\<close> raises IndexError the \<open>except\<close> clause sets the exception on
  the future of \<open>request\<close>; the queue is empty then, so the \<open>while\<close> loop ends.
\<close>

definition drain_start_call :: "queue_state \<Rightarrow> request \<Rightarrow> queue_state \<times> task_state" where
  "drain_start_call s request =
     (case drain_admit s request of
        Inr s1 \<Rightarrow> (s1, Calling request)
      | Inl e \<Rightarrow>
          (case set_future s (future request) (Inl e) of
             Inl e1 \<Rightarrow> (s, Crashed e1)
           | Inr s1 \<Rightarrow> (s1\<lparr>processing := False\<rparr>, Finished)))"

text \<open>
  From the test of \<open>while self.queue\<close> (line 300) to the next await, or to the end of
  the coroutine (line 344).
\<close>

definition drain_continue :: "queue_state \<Rightarrow> queue_state \<times> task_state" where
  "drain_continue s =
     (if queue s = [] then (s\<lparr>processing := False\<rparr>, Finished)
      else (let request = hd (queue s);
                (s1, w) = drain_peek s request
            in case w of
                 Inl e \<Rightarrow> (s1, Crashed e)
               | Inr wait_time \<Rightarrow>
                   if wait_time > 0 then (s1, Sleeping request (clock s1 + wait_time))
                   else drain_start_call s1 request))"

text \<open>Lines 334-342, then the loop again.\<close>

definition drain_finish_call ::
  "queue_state \<Rightarrow> request \<Rightarrow> py_error + string \<Rightarrow> queue_state \<times> task_state" where
  "drain_finish_call s request r =
     (case drain_resolve s request r of
        Inl e \<Rightarrow> (s, Crashed e)
      | Inr s1 \<Rightarrow> drain_continue s1)"

text \<open>
  The synchronous part of \<open>add_request\<close> for a request within the ceiling (lines
  126-153).  A chunked submission is a caller task with awaits of its own and is not
  part of this model: \<open>Submit\<close> is then no step.
\<close>

definition submit_step :: "loop_state \<Rightarrow> string \<Rightarrow> int \<Rightarrow> real \<Rightarrow> loop_state option" where
  "submit_step ls p m t =
     (let (s1, fut) = create_future (qs ls);
          est = estimate_tokens p + m
      in if est > max_chunk_size s1 then None
         else (let s2 = enqueue s1 p m t est fut
               in Some (ls\<lparr>qs := s2,
                           tasks := (if \<not> processing s2 then tasks ls @ [Created] else tasks ls)\<rparr>)))"

definition set_task :: "loop_state \<Rightarrow> nat \<Rightarrow> queue_state \<times> task_state \<Rightarrow> loop_state" where
  "set_task ls tid r = ls\<lparr>qs := fst r, tasks := (tasks ls)[tid := snd r]\<rparr>"

definition log_call :: "queue_state \<Rightarrow> request \<Rightarrow> py_error + string \<Rightarrow> queue_state" where
  "log_call s request r =
     s\<lparr>calls := calls s @ [\<lparr>call_prompt = prompt request, call_max_tokens = max_tokens request,
                              call_temperature = temperature request, call_result = r\<rparr>]\<rparr>"

fun step :: "loop_state \<Rightarrow> event \<Rightarrow> loop_state option" where
  "step ls (Submit p m t) = submit_step ls p m t"
| "step ls (Advance d) = (if d < 0 then None else Some (ls\<lparr>qs := sleep (qs ls) d\<rparr>))"
| "step ls (Run tid) =
     (if tid < length (tasks ls) \<and> tasks ls ! tid = Created
      then Some (set_task ls tid (drain_continue ((qs ls)\<lparr>processing := True\<rparr>)))
      else None)"
| "step ls (Wake tid) =
     (if tid < length (tasks ls)
      then (case tasks ls ! tid of
              Sleeping request wake \<Rightarrow>
                if wake \<le> clock (qs ls) then Some (set_task ls tid (drain_start_call (qs ls) request))
                else None
            | RateLimited request wake \<Rightarrow>
                if wake \<le> clock (qs ls)
                then Some (set_task ls tid (drain_finish_call (qs ls) request (Inl RateLimitError)))
                else None
            | _ \<Rightarrow> None)
      else None)"
| "step ls (Complete tid r) =
     (if tid < length (tasks ls)
      then (case tasks ls ! tid of
              Calling request \<Rightarrow>
                (let s1 = log_call (qs ls) request r
                 in if r = Inl RateLimitError
                    then Some (set_task ls tid (s1, RateLimited request (clock s1 + 30)))
                    else Some (set_task ls tid (drain_finish_call s1 request r)))
            | _ \<Rightarrow> None)
      else None)"

fun run_events :: "loop_state \<Rightarrow> event list \<Rightarrow> loop_state option" where
  "run_events ls [] = Some ls"
| "run_events ls (e # es) = (case step ls e of None \<Rightarrow> None | Some ls1 \<Rightarrow> run_events ls1 es)"

text \<open>The calls of the provider that are running: the requests of the tasks awaiting one.\<close>

fun calling :: "task_state \<Rightarrow> request list" where
  "calling (Calling request) = [request]"
| "calling _ = []"

definition in_flight :: "loop_state \<Rightarrow> request list" where
  "in_flight ls = concat (map calling (tasks ls))"

section \<open>Notions used to state the properties of the splitter\<close>

text \<open>
  \<open>flat\<close> is the text held by the splitter's two variables, in order.
  \<open>rejoin_paragraph\<close> is what the splitter emits for one paragraph: a paragraph within
  the budget is followed by a blank line, a longer one has its newlines turned into
  spaces and is followed by one space.  \<open>single_word_chunk\<close> is a chunk made of one
  word (no space, no newline) and the space after it, longer than the budget.
\<close>

definition flat :: "split_state \<Rightarrow> string" where
  "flat st = concat (fst st) @ snd st"

definition newline_to_space :: "string \<Rightarrow> string" where
  "newline_to_space s = map (\<lambda>c. if c = CHR ''\<newline>'' then CHR '' '' else c) s"

definition rejoin_paragraph :: "int \<Rightarrow> string \<Rightarrow> string" where
  "rejoin_paragraph m p =
     (if m < int (length p) then newline_to_space p @ '' '' else p @ ''\<newline>\<newline>'')"

definition keep_char :: "char \<Rightarrow> bool" where
  "keep_char c = (c \<noteq> CHR '' '' \<and> c \<noteq> CHR ''\<newline>'')"

definition single_word_chunk :: "int \<Rightarrow> string \<Rightarrow> bool" where
  "single_word_chunk max_chars c =
     (c \<noteq> [] \<and> last c = CHR '' '' \<and> CHR '' '' \<notin> set (butlast c)
      \<and> CHR ''\<newline>'' \<notin> set (butlast c) \<and> max_chars < int (length c))"

definition chunk_bounded :: "int \<Rightarrow> string \<Rightarrow> bool" where
  "chunk_bounded max_chars c =
     (c = [] \<or> int (length c) \<le> max_chars + 2 \<or> single_word_chunk max_chars c)"

definition state_bounded :: "int \<Rightarrow> split_state \<Rightarrow> bool" where
  "state_bounded m st = (list_all (chunk_bounded m) (fst st) \<and> chunk_bounded m (snd st))"

section \<open>Notions used to state the properties of the queue\<close>

text \<open>
  An idle queue: nothing queued, no drain loop running, a refill rate other than zero
  (so \<open>get_wait_time\<close> cannot raise), and every resolved future one that was created.
\<close>

definition idle :: "queue_state \<Rightarrow> bool" where
  "idle s = (queue s = [] \<and> \<not> processing s \<and> refill_rate (token_bucket s) \<noteq> 0
             \<and> list_all (\<lambda>(f, r). f < next_future s) (resolved s))"

text \<open>
  \<open>answered a\<close>: the await of the appended request \<open>a\<close> returned a text.
  \<open>sole_entry\<close> and \<open>sole_call\<close> are the \<open>j\<close>-th request a single caller appends for
  a list of chunks, with what its await gives, and the call of the provider made for it.
\<close>

definition answered :: "awaited \<Rightarrow> bool" where
  "answered a = (case snd a of Some (Inr x) \<Rightarrow> True | _ \<Rightarrow> False)"

definition sole_entry ::
  "environment \<Rightarrow> string \<Rightarrow> nat \<Rightarrow> int \<Rightarrow> real \<Rightarrow> queue_state \<Rightarrow> nat \<Rightarrow> string list \<Rightarrow> nat \<Rightarrow> awaited" where
  "sole_entry env sys n m t s i0 cs j =
     (\<lparr>prompt = chunk_prompt sys n (i0 + j) (cs ! j), max_tokens = m, temperature = t,
       estimated_tokens = estimate_tokens (chunk_prompt sys n (i0 + j) (cs ! j)) + m,
       future = next_future s + j\<rparr>,
      Some (respond env (length (calls s) + j) (chunk_prompt sys n (i0 + j) (cs ! j)) m t))"

definition sole_call ::
  "environment \<Rightarrow> string \<Rightarrow> nat \<Rightarrow> int \<Rightarrow> real \<Rightarrow> queue_state \<Rightarrow> nat \<Rightarrow> string list \<Rightarrow> nat \<Rightarrow> api_call" where
  "sole_call env sys n m t s i0 cs j =
     \<lparr>call_prompt = chunk_prompt sys n (i0 + j) (cs ! j), call_max_tokens = m,
      call_temperature = t,
      call_result = respond env (length (calls s) + j) (chunk_prompt sys n (i0 + j) (cs ! j)) m t\<rparr>"

section \<open>Properties of the token bucket\<close>

text \<open>
  C3 (consume atomicity).  For every bucket state, clock reading and amount \<open>n\<close>,
  \<open>consume\<close> refills and then either returns True with the refilled balance lowered by
  exactly \<open>n\<close>, or returns False with the refilled balance left as it is.  It succeeds
  exactly when \<open>n\<close> is at most the refilled balance, and nothing but the balance
  differs from the refilled bucket.
\<close>

theorem consume_atomic:
  "snd (consume b now n) = (of_int n \<le> tokens (refill b now))
   \<and> ((snd (consume b now n)
         \<and> fst (consume b now n) = (refill b now)\<lparr>tokens := tokens (refill b now) - of_int n\<rparr>
         \<and> tokens (fst (consume b now n)) = tokens (refill b now) - of_int n)
        \<or> (\<not> snd (consume b now n)
            \<and> fst (consume b now n) = refill b now
            \<and> tokens (fst (consume b now n)) = tokens (refill b now)))"
  by (simp add: consume_def Let_def)

subsection \<open>Bounds of the balance\<close>

lemma refill_frame:
  "capacity (refill b now) = capacity b" "refill_rate (refill b now) = refill_rate b"
  "last_refill (refill b now) = now"
  by (simp_all add: refill_def Let_def)

lemma refill_tokens:
  "tokens (refill b now) = min (capacity b) (tokens b + (now - last_refill b) * refill_rate b)"
  by (simp add: refill_def Let_def)

lemmas refill_fields = refill_frame refill_tokens

lemma refill_inv:
  assumes "bucket_inv b" "0 \<le> refill_rate b" "last_refill b \<le> now"
  shows "bucket_inv (refill b now)"
proof -
  have "0 \<le> (now - last_refill b) * refill_rate b"
    using assms by simp
  then show ?thesis
    using assms(1) by (simp add: bucket_inv_def refill_fields min_def)
qed

lemma apply_op_fields:
  "capacity (apply_op b now opn) = capacity b"
  "refill_rate (apply_op b now opn) = refill_rate b"
  "last_refill (apply_op b now opn) = now"
  by (cases opn; simp add: consume_def get_wait_time_def Let_def refill_fields)+

lemma apply_op_inv:
  assumes "bucket_inv b" "0 \<le> refill_rate b" "last_refill b \<le> now" "0 \<le> op_amount opn"
  shows "bucket_inv (apply_op b now opn)"
proof -
  have r: "bucket_inv (refill b now)"
    using assms by (simp add: refill_inv)
  show ?thesis
  proof (cases opn)
    case Refill
    then show ?thesis using r by simp
  next
    case (Consume n)
    then show ?thesis
      using r assms(4) by (auto simp: consume_def Let_def bucket_inv_def)
  next
    case (GetWaitTime n)
    then show ?thesis
      using r by (simp add: get_wait_time_def Let_def)
  qed
qed

lemma run_ops_inv:
  assumes "bucket_inv b" "0 \<le> refill_rate b" "last_refill b = t"
    and "list_all (\<lambda>(dt, opn). 0 \<le> dt \<and> 0 \<le> op_amount opn) ops"
  shows "list_all (\<lambda>b'. bucket_inv b' \<and> capacity b' = capacity b) (run_ops b t ops)"
  using assms
proof (induction ops arbitrary: b t)
  case Nil
  then show ?case by simp
next
  case (Cons x ops)
  obtain dt opn where x: "x = (dt, opn)" by (cases x)
  let ?b = "apply_op b (t + dt) opn"
  have step: "bucket_inv ?b"
    using Cons.prems x by (intro apply_op_inv) auto
  have "list_all (\<lambda>b'. bucket_inv b' \<and> capacity b' = capacity ?b) (run_ops ?b (t + dt) ops)"
    using Cons.prems x step by (intro Cons.IH) (auto simp: apply_op_fields)
  then show ?case
    using step x by (simp add: apply_op_fields)
qed

text \<open>
  C2 (bucket bounds), as the code has it.  A bucket created with capacity \<open>C \<ge> 0\<close>
  and a refill rate \<open>\<ge> 0\<close> keeps \<open>0 \<le> tokens \<le> C\<close> after every refill, consume and
  get_wait_time of every history whose clock never runs backwards and whose requested
  amounts are not negative.
\<close>

theorem bucket_bounds:
  assumes "0 \<le> C" and "0 \<le> rate"
    and "list_all (\<lambda>(dt, opn). 0 \<le> dt \<and> 0 \<le> op_amount opn) ops"
  shows "list_all (\<lambda>b. 0 \<le> tokens b \<and> tokens b \<le> of_int C \<and> capacity b = of_int C)
           (run_ops (init_bucket C rate t0) t0 ops)"
proof -
  have "list_all (\<lambda>b'. bucket_inv b' \<and> capacity b' = capacity (init_bucket C rate t0))
          (run_ops (init_bucket C rate t0) t0 ops)"
    using assms by (intro run_ops_inv) (simp_all add: init_bucket_def bucket_inv_def)
  then show ?thesis
    by (rule list.pred_mono_strong) (auto simp: bucket_inv_def init_bucket_def)
qed

theorem bucket_bounds_witness:
  "list_all (\<lambda>b. 0 \<le> tokens b \<and> tokens b \<le> 100 \<and> capacity b = 100)
     (run_ops (init_bucket 100 10 0) 0 [(0, Consume 80), (0, Consume 30), (1, Consume 30)])
   \<and> map tokens (run_ops (init_bucket 100 10 0) 0
          [(0, Consume 80), (0, Consume 30), (1, Consume 30)]) = [20, 20, 0]"
  using bucket_bounds [of 100 10 "[(0, Consume 80), (0, Consume 30), (1, Consume 30)]" 0]
  by (simp add: init_bucket_def consume_def refill_def Let_def)

text \<open>
  The claim as the spec states it has no condition on the amounts, the rate or the
  capacity.  Consuming a negative amount from a full bucket lifts the balance over the
  capacity; a negative refill rate drives the balance below zero; a negative capacity
  starts the bucket below zero.
\<close>

theorem bucket_bounds_counterexample:
  "\<not> tokens (fst (consume (init_bucket 100 10 0) 0 (- 5))) \<le> capacity (init_bucket 100 10 0)
   \<and> tokens (fst (consume (init_bucket 100 10 0) 0 (- 5))) = 105
   \<and> tokens (refill (init_bucket 100 (- 10) 0) 20) = - 100
   \<and> tokens (refill (init_bucket (- 1) 10 0) 0) = - 1"
  by (simp add: init_bucket_def consume_def refill_def Let_def)

subsection \<open>Wait time\<close>

text \<open>
  A refill never lifts the balance over the capacity, so a \<open>consume\<close> of more than
  the capacity fails in every state and at every clock reading.
\<close>

lemma consume_over_capacity: "capacity b < of_int n \<Longrightarrow> \<not> snd (consume b now n)"
proof -
  assume "capacity b < of_int n"
  moreover have "tokens (refill b now) \<le> capacity b"
    by (simp add: refill_tokens)
  ultimately show ?thesis
    by (simp add: consume_def Let_def)
qed

lemma get_wait_time_over_capacity:
  assumes "capacity b < of_int n" and "refill_rate b \<noteq> 0"
  shows "snd (get_wait_time b now n) = Inr ((of_int n - tokens (refill b now)) / refill_rate b)"
proof -
  have "tokens (refill b now) \<le> capacity b"
    by (simp add: refill_tokens)
  then have "\<not> of_int n \<le> tokens (refill b now)"
    using assms(1) by simp
  then show ?thesis
    using assms(2) by (simp add: get_wait_time_def Let_def refill_frame)
qed

text \<open>
  C4 (wait-time correctness).  \<open>get_wait_time\<close> does not look at the capacity: a full
  bucket of capacity 100 and rate 10 asked for 150 tokens answers 5 seconds.  After
  exactly 5 seconds the refill is clamped to 100 and \<open>consume(150)\<close> returns False,
  with the balance left at 100.  Every number of this run is a whole number, which the
  floats of the source compute without rounding.
\<close>

theorem wait_time_over_capacity:
  "snd (get_wait_time (init_bucket 100 10 0) 0 150) = Inr 5
   \<and> \<not> snd (consume (fst (get_wait_time (init_bucket 100 10 0) 0 150)) (0 + 5) 150)
   \<and> tokens (fst (consume (fst (get_wait_time (init_bucket 100 10 0) 0 150)) (0 + 5) 150)) = 100"
  by (simp add: init_bucket_def consume_def get_wait_time_def refill_def Let_def)

section \<open>Properties of the text splitter\<close>

subsection \<open>Python string operations\<close>

lemma py_split_not_Nil: "py_split sep s \<noteq> []"
  by (induction sep s rule: py_split.induct) (auto split: list.splits)

lemma py_join_Cons_Cons: "py_join sep ((c # p) # ps) = c # py_join sep (p # ps)"
  by (cases ps) simp_all

lemma py_join_Nil_Cons: "ps \<noteq> [] \<Longrightarrow> py_join sep ([] # ps) = sep @ py_join sep ps"
  by (cases ps) simp_all

lemma prefix_drop_eq:
  assumes "sep \<noteq> []" "prefix sep (c # cs)"
  shows "c # cs = sep @ drop (length sep - 1) cs"
proof -
  obtain zs where zs: "c # cs = sep @ zs"
    using assms(2) by (auto simp: prefix_def)
  obtain s1 sep' where sep: "sep = s1 # sep'"
    using assms(1) by (cases sep) auto
  from zs sep have "cs = sep' @ zs" by simp
  then show ?thesis using zs sep by simp
qed

lemma py_split_match:
  "sep \<noteq> [] \<Longrightarrow> prefix sep (c # cs) \<Longrightarrow>
     py_split sep (c # cs) = [] # py_split sep (drop (length sep - 1) cs)"
  by simp

lemma py_split_no_match:
  assumes "\<not> (sep \<noteq> [] \<and> prefix sep (c # cs))"
  shows "\<exists>p ps. py_split sep cs = p # ps \<and> py_split sep (c # cs) = (c # p) # ps"
proof (cases "py_split sep cs")
  case Nil
  then show ?thesis by (simp add: py_split_not_Nil)
next
  case (Cons p ps)
  then show ?thesis using assms by auto
qed

lemma py_replace_match:
  "old \<noteq> [] \<Longrightarrow> prefix old (c # cs) \<Longrightarrow>
     py_replace old new (c # cs) = new @ py_replace old new (drop (length old - 1) cs)"
  by simp

lemma py_replace_no_match:
  "\<not> (old \<noteq> [] \<and> prefix old (c # cs)) \<Longrightarrow>
     py_replace old new (c # cs) = c # py_replace old new cs"
  by auto

lemma py_join_split: "py_join sep (py_split sep s) = s"
proof (induction sep s rule: py_split.induct)
  case (1 sep)
  then show ?case by simp
next
  case (2 sep c cs)
  show ?case
  proof (cases "sep \<noteq> [] \<and> prefix sep (c # cs)")
    case True
    have "py_join sep (py_split sep (c # cs)) =
            sep @ py_join sep (py_split sep (drop (length sep - 1) cs))"
      using True by (simp add: py_split_match py_join_Nil_Cons [OF py_split_not_Nil] del: py_split.simps)
    also have "\<dots> = sep @ drop (length sep - 1) cs"
      using 2(1) True by simp
    also have "\<dots> = c # cs"
      using prefix_drop_eq [of sep c cs] True by simp
    finally show ?thesis .
  next
    case False
    obtain p ps where p: "py_split sep cs = p # ps" "py_split sep (c # cs) = (c # p) # ps"
      using py_split_no_match [OF False] by blast
    then show ?thesis
      using 2(2) False by (simp only: py_join_Cons_Cons) simp
  qed
qed

lemma filter_concat_py_split:
  "\<forall>x \<in> set sep. \<not> keep x \<Longrightarrow> filter keep (concat (py_split sep s)) = filter keep s"
proof (induction sep s rule: py_split.induct)
  case (1 sep)
  then show ?case by simp
next
  case (2 sep c cs)
  show ?case
  proof (cases "sep \<noteq> [] \<and> prefix sep (c # cs)")
    case True
    have "filter keep sep = []"
      using 2(3) by (simp add: filter_empty_conv)
    then have "filter keep (c # cs) = filter keep (drop (length sep - 1) cs)"
      using prefix_drop_eq [of sep c cs] True by (metis append_Nil filter_append)
    moreover have "filter keep (concat (py_split sep (c # cs))) =
        filter keep (concat (py_split sep (drop (length sep - 1) cs)))"
      using True by (simp add: py_split_match del: py_split.simps)
    moreover have "filter keep (concat (py_split sep (drop (length sep - 1) cs))) =
        filter keep (drop (length sep - 1) cs)"
      using 2(1) [OF True 2(3)] .
    ultimately show ?thesis
      by simp
  next
    case False
    obtain p ps where p: "py_split sep cs = p # ps" "py_split sep (c # cs) = (c # p) # ps"
      using py_split_no_match [OF False] by blast
    have "filter keep (concat (p # ps)) = filter keep cs"
      using 2(2) [OF False 2(3)] p(1) by simp
    then show ?thesis
      unfolding p(2) by simp
  qed
qed

lemma set_py_split: "p \<in> set (py_split sep s) \<Longrightarrow> set p \<subseteq> set s"
proof (induction sep s arbitrary: p rule: py_split.induct)
  case (1 sep)
  then show ?case by simp
next
  case (2 sep c cs)
  show ?case
  proof (cases "sep \<noteq> [] \<and> prefix sep (c # cs)")
    case True
    then have "p = [] \<or> p \<in> set (py_split sep (drop (length sep - 1) cs))"
      using 2(3) by (simp add: py_split_match del: py_split.simps)
    moreover have "set (drop (length sep - 1) cs) \<subseteq> set (c # cs)"
      by (auto dest: in_set_dropD)
    ultimately show ?thesis
      using 2(1) [OF True] by (elim disjE) (simp, blast)
  next
    case False
    obtain q qs where q: "py_split sep cs = q # qs" "py_split sep (c # cs) = (c # q) # qs"
      using py_split_no_match [OF False] by blast
    have "p = c # q \<or> p \<in> set qs"
      using 2(3) unfolding q(2) by simp
    moreover have "set q \<subseteq> set cs" "\<And>r. r \<in> set qs \<Longrightarrow> set r \<subseteq> set cs"
      using 2(2) False q(1) by simp_all
    ultimately show ?thesis
      by auto
  qed
qed

lemma py_split_char_free: "p \<in> set (py_split [x] s) \<Longrightarrow> x \<notin> set p"
proof (induction s arbitrary: p)
  case Nil
  then show ?case by simp
next
  case (Cons c cs)
  show ?case
  proof (cases "x = c")
    case True
    then have "p = [] \<or> p \<in> set (py_split [x] cs)"
      using Cons.prems by simp
    then show ?thesis using Cons.IH by auto
  next
    case False
    then have nm: "\<not> ([x] \<noteq> [] \<and> prefix [x] (c # cs))" by simp
    obtain q qs where q: "py_split [x] cs = q # qs" "py_split [x] (c # cs) = (c # q) # qs"
      using py_split_no_match [OF nm] by blast
    have "p = c # q \<or> p \<in> set qs"
      using Cons.prems unfolding q(2) by simp
    moreover have "x \<notin> set q" "\<And>r. r \<in> set qs \<Longrightarrow> x \<notin> set r"
      using Cons.IH q(1) by simp_all
    ultimately show ?thesis
      using False by auto
  qed
qed

lemma filter_py_replace:
  "filter keep old = filter keep new \<Longrightarrow> filter keep (py_replace old new s) = filter keep s"
proof (induction old new s rule: py_replace.induct)
  case (1 old new)
  then show ?case by simp
next
  case (2 old new c cs)
  show ?case
  proof (cases "old \<noteq> [] \<and> prefix old (c # cs)")
    case True
    have a: "filter keep (c # cs) = filter keep old @ filter keep (drop (length old - 1) cs)"
      using prefix_drop_eq [of old c cs] True by (metis filter_append)
    have b: "filter keep (py_replace old new (c # cs)) =
        filter keep new @ filter keep (py_replace old new (drop (length old - 1) cs))"
      using True by (simp add: py_replace_match del: py_replace.simps)
    have c: "filter keep (py_replace old new (drop (length old - 1) cs)) =
        filter keep (drop (length old - 1) cs)"
      using 2(1) [OF True 2(3)] .
    show ?thesis
      unfolding a b c using 2(3) by simp
  next
    case False
    have "filter keep (py_replace old new cs) = filter keep cs"
      using 2(2) [OF False 2(3)] .
    then show ?thesis
      by (simp add: py_replace_no_match [OF False] del: py_replace.simps)
  qed
qed

lemma concat_map_sep: "ps \<noteq> [] \<Longrightarrow> concat (map (\<lambda>p. p @ sep) ps) = py_join sep ps @ sep"
  by (induction sep ps rule: py_join.induct) simp_all

lemma py_join_split_char:
  "py_join [y] (py_split [x] s) = map (\<lambda>c. if c = x then y else c) s"
proof (induction s)
  case Nil
  then show ?case by simp
next
  case (Cons c cs)
  show ?case
  proof (cases "x = c")
    case True
    then show ?thesis
      using Cons.IH by (simp add: py_join_Nil_Cons py_split_not_Nil)
  next
    case False
    then have nm: "\<not> ([x] \<noteq> [] \<and> prefix [x] (c # cs))" by simp
    obtain q qs where q: "py_split [x] cs = q # qs" "py_split [x] (c # cs) = (c # q) # qs"
      using py_split_no_match [OF nm] by blast
    show ?thesis
      unfolding q(2) py_join_Cons_Cons using Cons.IH q(1) False by simp
  qed
qed

lemma map_py_replace:
  "map f old = map f new \<Longrightarrow> map f (py_replace old new s) = map f s"
proof (induction old new s rule: py_replace.induct)
  case (1 old new)
  then show ?case by simp
next
  case (2 old new c cs)
  show ?case
  proof (cases "old \<noteq> [] \<and> prefix old (c # cs)")
    case True
    have a: "map f (c # cs) = map f old @ map f (drop (length old - 1) cs)"
      using prefix_drop_eq [of old c cs] True by (metis map_append)
    have b: "map f (py_replace old new (c # cs)) =
        map f new @ map f (py_replace old new (drop (length old - 1) cs))"
      using True by (simp add: py_replace_match del: py_replace.simps)
    have c: "map f (py_replace old new (drop (length old - 1) cs)) =
        map f (drop (length old - 1) cs)"
      using 2(1) [OF True 2(3)] .
    show ?thesis
      unfolding a b c using 2(3) by simp
  next
    case False
    have "map f (py_replace old new cs) = map f cs"
      using 2(2) [OF False 2(3)] .
    then show ?thesis
      by (simp add: py_replace_no_match [OF False] del: py_replace.simps)
  qed
qed

lemma flat_flush: "flat (flush_chunk st) = flat st"
  by (cases st) (simp add: flat_def flush_chunk_def)

lemma flat_word_step: "flat (word_step m st w) = flat st @ w @ '' ''"
  by (cases st) (simp add: flat_def word_step_def)

lemma flat_words: "flat (foldl (word_step m) st ws) = flat st @ concat (map (\<lambda>w. w @ '' '') ws)"
  by (induction ws arbitrary: st) (simp_all add: flat_word_step)

lemma flat_sentence_step: "flat (sentence_step m st s) = flat st @ s @ '' ''"
proof -
  have "concat (map (\<lambda>w. w @ '' '') (py_split '' '' s)) = s @ '' ''"
    by (simp add: concat_map_sep py_split_not_Nil py_join_split)
  then have w: "flat (foldl (word_step m) (flush_chunk st) (py_split '' '' s)) = flat st @ s @ '' ''"
    by (simp add: flat_words flat_flush)
  have f: "concat (fst (flush_chunk st)) = flat st" if "int (length (snd st)) + int (length s) > m" "\<not> int (length s) > m"
    using that by (cases st) (auto simp: flat_def flush_chunk_def)
  show ?thesis
  proof (cases st)
    case (Pair chunks cur)
    show ?thesis
    proof (cases "int (length cur) + int (length s) > m")
      case True
      note gt = this
      show ?thesis
      proof (cases "int (length s) > m")
        case True
        then show ?thesis
          using gt w Pair by (simp add: sentence_step_def Let_def)
      next
        case False
        then show ?thesis
          using gt f Pair by (simp add: sentence_step_def Let_def flat_def)
      qed
    next
      case False
      then show ?thesis
        using Pair by (simp add: sentence_step_def flat_def)
    qed
  qed
qed

lemma flat_sentences:
  "flat (foldl (sentence_step m) st ss) = flat st @ concat (map (\<lambda>s. s @ '' '') ss)"
  by (induction ss arbitrary: st) (simp_all add: flat_sentence_step)

lemma sentences_rejoined:
  "concat (map (\<lambda>s. s @ '' '') (py_split ''\<newline>'' (py_replace ''. '' ''.\<newline>'' p)))
     = newline_to_space p @ '' ''"
proof -
  let ?r = "py_replace ''. '' ''.\<newline>'' p"
  have "concat (map (\<lambda>s. s @ '' '') (py_split ''\<newline>'' ?r)) = py_join '' '' (py_split ''\<newline>'' ?r) @ '' ''"
    by (simp add: concat_map_sep py_split_not_Nil)
  also have "py_join '' '' (py_split ''\<newline>'' ?r) = newline_to_space ?r"
    unfolding newline_to_space_def by (rule py_join_split_char)
  also have "newline_to_space ?r = newline_to_space p"
    unfolding newline_to_space_def by (rule map_py_replace) simp
  finally show ?thesis .
qed

lemma flat_paragraph_step: "flat (paragraph_step m st p) = flat st @ rejoin_paragraph m p"
proof (cases st)
  case (Pair chunks cur)
  have long: "flat (foldl (sentence_step m) (flush_chunk st)
      (py_split ''\<newline>'' (py_replace ''. '' ''.\<newline>'' p))) = flat st @ newline_to_space p @ '' ''"
    by (simp add: flat_sentences flat_flush sentences_rejoined)
  show ?thesis
  proof (cases "int (length cur) + int (length p) > m")
    case True
    note gt = this
    show ?thesis
    proof (cases "int (length p) > m")
      case True
      then show ?thesis
        using gt long Pair by (simp add: paragraph_step_def Let_def rejoin_paragraph_def)
    next
      case False
      then have "cur \<noteq> []" using gt by auto
      then show ?thesis
        using gt False Pair
        by (simp add: paragraph_step_def Let_def rejoin_paragraph_def flat_def flush_chunk_def)
    qed
  next
    case False
    then have "\<not> m < int (length p)" by simp
    then show ?thesis
      using False Pair by (simp add: paragraph_step_def rejoin_paragraph_def flat_def)
  qed
qed

lemma flat_paragraphs:
  "flat (foldl (paragraph_step m) st ps) = flat st @ concat (map (rejoin_paragraph m) ps)"
  by (induction ps arbitrary: st) (simp_all add: flat_paragraph_step)

lemma concat_fst_flush: "concat (fst (flush_chunk st)) = flat st"
  by (cases st) (simp add: flat_def flush_chunk_def)

lemma concat_split_text:
  "concat (split_text text mt) =
     (if int (length text) \<le> mt * 4 then text
      else concat (map (rejoin_paragraph (mt * 4)) (py_split ''\<newline>\<newline>'' text)))"
proof -
  have "flat ([], []) = []"
    by (simp add: flat_def)
  then show ?thesis
    by (simp add: split_text_def Let_def concat_fst_flush flat_paragraphs)
qed

lemma filter_rejoin_paragraph:
  "filter keep_char (rejoin_paragraph m p) = filter keep_char p"
proof -
  have "filter keep_char (newline_to_space p) = filter keep_char p"
    unfolding newline_to_space_def by (induction p) (simp_all add: keep_char_def)
  then show ?thesis
    by (simp add: rejoin_paragraph_def keep_char_def)
qed

lemma filter_concat_map_rejoin:
  "filter keep_char (concat (map (rejoin_paragraph m) ps)) = filter keep_char (concat ps)"
  by (induction ps) (simp_all add: filter_rejoin_paragraph)

lemma filter_split_text:
  "filter keep_char (concat (split_text text mt)) = filter keep_char text"
proof -
  have "filter keep_char (concat (py_split ''\<newline>\<newline>'' text)) = filter keep_char text"
    by (rule filter_concat_py_split) (simp add: keep_char_def)
  then show ?thesis
    by (simp add: concat_split_text filter_concat_map_rejoin)
qed

lemma split_text_fits: "int (length text) \<le> mt * 4 \<Longrightarrow> split_text text mt = [text]"
  by (simp add: split_text_def)

lemma concat_split_text_short_paragraphs:
  assumes "\<not> int (length text) \<le> mt * 4"
    and "\<forall>p \<in> set (py_split ''\<newline>\<newline>'' text). int (length p) \<le> mt * 4"
  shows "concat (split_text text mt) = text @ ''\<newline>\<newline>''"
proof -
  let ?ps = "py_split ''\<newline>\<newline>'' text"
  have meq: "map (rejoin_paragraph (mt * 4)) ?ps = map (\<lambda>p. p @ ''\<newline>\<newline>'') ?ps"
    using assms(2) by (intro map_cong) (auto simp: rejoin_paragraph_def)
  have "concat (split_text text mt) = concat (map (rejoin_paragraph (mt * 4)) ?ps)"
    using assms(1) by (simp add: concat_split_text)
  also have "\<dots> = concat (map (\<lambda>p. p @ ''\<newline>\<newline>'') ?ps)"
    by (simp only: meq)
  also have "\<dots> = py_join ''\<newline>\<newline>'' ?ps @ ''\<newline>\<newline>''"
    by (rule concat_map_sep) (rule py_split_not_Nil)
  finally show ?thesis
    by (simp add: py_join_split)
qed

lemma bounded_flush: "state_bounded m st \<Longrightarrow> state_bounded m (flush_chunk st)"
  by (cases st) (auto simp: state_bounded_def flush_chunk_def chunk_bounded_def)

lemma bounded_word_step:
  assumes "state_bounded m st" "CHR '' '' \<notin> set w" "CHR ''\<newline>'' \<notin> set w"
  shows "state_bounded m (word_step m st w)"
proof (cases st)
  case (Pair chunks cur)
  have new: "chunk_bounded m (w @ '' '')"
    using assms(2,3) by (auto simp: chunk_bounded_def single_word_chunk_def)
  show ?thesis
  proof (cases "int (length cur) + int (length w) + 1 > m")
    case True
    then show ?thesis
      using assms(1) new Pair by (simp add: word_step_def state_bounded_def)
  next
    case False
    then have "chunk_bounded m (cur @ w @ '' '')"
      by (simp add: chunk_bounded_def)
    then show ?thesis
      using assms(1) False Pair by (simp add: word_step_def state_bounded_def)
  qed
qed

lemma bounded_words:
  "state_bounded m st \<Longrightarrow> \<forall>w \<in> set ws. CHR '' '' \<notin> set w \<and> CHR ''\<newline>'' \<notin> set w \<Longrightarrow>
     state_bounded m (foldl (word_step m) st ws)"
  by (induction ws arbitrary: st) (simp_all add: bounded_word_step)

lemma bounded_sentence_step:
  assumes "state_bounded m st" "CHR ''\<newline>'' \<notin> set s"
  shows "state_bounded m (sentence_step m st s)"
proof (cases st)
  case (Pair chunks cur)
  have words: "\<forall>w \<in> set (py_split '' '' s). CHR '' '' \<notin> set w \<and> CHR ''\<newline>'' \<notin> set w"
    using assms(2) py_split_char_free [of _ "CHR '' ''" s] set_py_split [of _ "'' ''" s]
    by blast
  have fl: "state_bounded m (flush_chunk st)"
    using assms(1) by (rule bounded_flush)
  show ?thesis
  proof (cases "int (length cur) + int (length s) > m")
    case True
    note gt = this
    show ?thesis
    proof (cases "int (length s) > m")
      case True
      then show ?thesis
        using gt Pair bounded_words [OF fl words] by (simp add: sentence_step_def Let_def)
    next
      case False
      then have "chunk_bounded m (s @ '' '')"
        by (simp add: chunk_bounded_def)
      then show ?thesis
        using gt False Pair fl by (simp add: sentence_step_def Let_def state_bounded_def)
    qed
  next
    case False
    then have "chunk_bounded m (cur @ s @ '' '')"
      by (simp add: chunk_bounded_def)
    then show ?thesis
      using assms(1) False Pair by (simp add: sentence_step_def state_bounded_def)
  qed
qed

lemma bounded_sentences:
  "state_bounded m st \<Longrightarrow> \<forall>s \<in> set ss. CHR ''\<newline>'' \<notin> set s \<Longrightarrow>
     state_bounded m (foldl (sentence_step m) st ss)"
  by (induction ss arbitrary: st) (simp_all add: bounded_sentence_step)

lemma bounded_paragraph_step:
  assumes "state_bounded m st"
  shows "state_bounded m (paragraph_step m st p)"
proof (cases st)
  case (Pair chunks cur)
  have sentences: "\<forall>s \<in> set (py_split ''\<newline>'' (py_replace ''. '' ''.\<newline>'' p)). CHR ''\<newline>'' \<notin> set s"
    using py_split_char_free by blast
  have fl: "state_bounded m (flush_chunk st)"
    using assms(1) by (rule bounded_flush)
  show ?thesis
  proof (cases "int (length cur) + int (length p) > m")
    case True
    note gt = this
    show ?thesis
    proof (cases "int (length p) > m")
      case True
      then show ?thesis
        using gt Pair bounded_sentences [OF fl sentences] by (simp add: paragraph_step_def Let_def)
    next
      case False
      then have "chunk_bounded m (p @ ''\<newline>\<newline>'')"
        by (simp add: chunk_bounded_def)
      then show ?thesis
        using gt False Pair fl by (simp add: paragraph_step_def Let_def state_bounded_def)
    qed
  next
    case False
    then have "chunk_bounded m (cur @ p @ ''\<newline>\<newline>'')"
      by (simp add: chunk_bounded_def)
    then show ?thesis
      using assms(1) False Pair by (simp add: paragraph_step_def state_bounded_def)
  qed
qed

lemma bounded_paragraphs:
  "state_bounded m st \<Longrightarrow> state_bounded m (foldl (paragraph_step m) st ps)"
  by (induction ps arbitrary: st) (simp_all add: bounded_paragraph_step)

lemma split_text_bounded: "list_all (chunk_bounded (mt * 4)) (split_text text mt)"
proof (cases "int (length text) \<le> mt * 4")
  case True
  then show ?thesis
    by (simp add: split_text_def chunk_bounded_def)
next
  case False
  have "state_bounded (mt * 4) ([], [])"
    by (simp add: state_bounded_def chunk_bounded_def)
  then have "state_bounded (mt * 4)
      (flush_chunk (foldl (paragraph_step (mt * 4)) ([], []) (py_split ''\<newline>\<newline>'' text)))"
    by (intro bounded_flush bounded_paragraphs)
  then show ?thesis
    using False by (simp add: split_text_def Let_def state_bounded_def)
qed

lemma estimate_bounded: "int (length c) \<le> mt * 4 + 2 \<Longrightarrow> estimate_tokens c \<le> mt + 1"
  by (simp add: estimate_tokens_def)

text \<open>
  C5 (splitter round-trip), as the code has it.  A text within the budget comes back as
  the single chunk it is.  Otherwise the chunks, concatenated in order, are the
  paragraphs of the text (\<open>text.split("\\n\\n")\<close>) in order, each paragraph within the
  budget followed by a blank line (the last one too), each longer paragraph with its
  newlines turned into spaces and followed by one space.  So the characters other than
  spaces and newlines come back unchanged, none lost, added or reordered; the text
  itself does not.
\<close>

theorem split_text_roundtrip:
  "concat (split_text text budget) =
     (if int (length text) \<le> budget * 4 then text
      else concat (map (rejoin_paragraph (budget * 4)) (py_split ''\<newline>\<newline>'' text)))
   \<and> filter keep_char (concat (split_text text budget)) = filter keep_char text"
proof
  show "concat (split_text text budget) =
     (if int (length text) \<le> budget * 4 then text
      else concat (map (rejoin_paragraph (budget * 4)) (py_split ''\<newline>\<newline>'' text)))"
    by (rule concat_split_text)
  show "filter keep_char (concat (split_text text budget)) = filter keep_char text"
    by (rule filter_split_text)
qed

text \<open>
  The claim as the spec states it: with a budget of 1 token (4 characters) the text
  \<open>ab\\n\\ncd\<close> comes back with a blank line added at its end, and the text
  \<open>a b\\nc d e\<close> with its newline turned into a space and a space added.
\<close>

theorem split_text_roundtrip_counterexample:
  "split_text ''ab\<newline>\<newline>cd'' 1 = [''ab\<newline>\<newline>'', ''cd\<newline>\<newline>'']
   \<and> concat (split_text ''ab\<newline>\<newline>cd'' 1) \<noteq> ''ab\<newline>\<newline>cd''
   \<and> split_text ''a b\<newline>c d e'' 1 = [''a b '', ''c d '', ''e '']
   \<and> concat (split_text ''a b\<newline>c d e'' 1) \<noteq> ''a b\<newline>c d e''"
  by (simp add: split_text_def paragraph_step_def sentence_step_def word_step_def flush_chunk_def)

text \<open>
  C6 (splitter bound), as the code has it.  Every chunk is empty, or has at most
  \<open>4 * max_tokens + 2\<close> characters and so an estimated cost of at most
  \<open>max_tokens + 1\<close>, or is one word with the space after it, longer than
  \<open>4 * max_tokens\<close> characters.
\<close>

theorem split_text_bound:
  "list_all (\<lambda>c. c = []
        \<or> (int (length c) \<le> budget * 4 + 2 \<and> estimate_tokens c \<le> budget + 1)
        \<or> single_word_chunk (budget * 4) c)
     (split_text text budget)"
  by (rule list.pred_mono_strong [OF split_text_bounded])
     (auto simp: chunk_bounded_def estimate_bounded)

text \<open>
  The claim as the spec states it: with a budget of 2 tokens the first chunk of
  \<open>aaa bbb\\n\\nccc ddd\<close> holds two words, each of estimated cost 1, and has
  estimated cost 3.
\<close>

theorem split_text_bound_counterexample:
  "split_text ''aaa bbb\<newline>\<newline>ccc ddd'' 2 = [''aaa bbb\<newline>\<newline>'', ''ccc ddd\<newline>\<newline>'']
   \<and> estimate_tokens ''aaa bbb\<newline>\<newline>'' = 3
   \<and> \<not> estimate_tokens ''aaa bbb\<newline>\<newline>'' \<le> 2
   \<and> map estimate_tokens (py_split '' '' ''aaa bbb'') = [1, 1]"
  by (simp add: split_text_def paragraph_step_def flush_chunk_def estimate_tokens_def)

section \<open>Properties of the queue and its callers\<close>

subsection \<open>One caller on an idle queue\<close>

lemma get_wait_time_no_error:
  "refill_rate b \<noteq> 0 \<Longrightarrow> \<exists>w. snd (get_wait_time b now n) = Inr w"
  by (simp add: get_wait_time_def Let_def refill_frame)

lemma bucket_op_rate:
  "refill_rate (fst (get_wait_time b now n)) = refill_rate b"
  "refill_rate (fst (consume b now n)) = refill_rate b"
  by (simp_all add: get_wait_time_def consume_def Let_def refill_frame)

lemma get_wait_time_rate:
  "get_wait_time b now n = (b1, w) \<Longrightarrow> refill_rate b1 = refill_rate b"
  using bucket_op_rate(1) [of b now n] by simp

lemma drain_iteration_single:
  assumes "queue s = [r]" and "refill_rate (token_bucket s) \<noteq> 0"
    and "future r \<notin> fst ` set (resolved s)"
  shows "\<exists>s'. drain_iteration env s = (s', None) \<and> queue s' = []
           \<and> processing s' = processing s \<and> next_future s' = next_future s
           \<and> max_chunk_size s' = max_chunk_size s
           \<and> refill_rate (token_bucket s') = refill_rate (token_bucket s)
           \<and> resolved s' = resolved s @
                [(future r, respond env (length (calls s)) (prompt r) (max_tokens r) (temperature r))]
           \<and> calls s' = calls s @
                [\<lparr>call_prompt = prompt r, call_max_tokens = max_tokens r,
                  call_temperature = temperature r,
                  call_result = respond env (length (calls s)) (prompt r) (max_tokens r) (temperature r)\<rparr>]"
proof -
  obtain w where w: "snd (get_wait_time (token_bucket s) (clock s) (estimated_tokens r)) = Inr w"
    using get_wait_time_no_error [OF assms(2)] by blast
  show ?thesis
    using assms w
    by (auto simp: drain_iteration_def drain_peek_def drain_admit_def drain_resolve_def
          make_api_call_def set_future_def sleep_def Let_def bucket_op_rate
          split: prod.splits sum.splits dest: get_wait_time_rate)
qed

lemma process_queue_single:
  assumes "queue s = [r]" and "refill_rate (token_bucket s) \<noteq> 0"
    and "future r \<notin> fst ` set (resolved s)"
  shows "queue (process_queue env s) = [] \<and> \<not> processing (process_queue env s)
           \<and> next_future (process_queue env s) = next_future s
           \<and> max_chunk_size (process_queue env s) = max_chunk_size s
           \<and> refill_rate (token_bucket (process_queue env s)) = refill_rate (token_bucket s)
           \<and> resolved (process_queue env s) = resolved s @
                [(future r, respond env (length (calls s)) (prompt r) (max_tokens r) (temperature r))]
           \<and> calls (process_queue env s) = calls s @
                [\<lparr>call_prompt = prompt r, call_max_tokens = max_tokens r,
                  call_temperature = temperature r,
                  call_result = respond env (length (calls s)) (prompt r) (max_tokens r) (temperature r)\<rparr>]"
proof -
  let ?s0 = "s\<lparr>processing := True\<rparr>"
  obtain s' where s': "drain_iteration env ?s0 = (s', None)" "queue s' = []"
      "processing s' = True" "next_future s' = next_future s"
      "max_chunk_size s' = max_chunk_size s"
      "refill_rate (token_bucket s') = refill_rate (token_bucket s)"
      "resolved s' = resolved s @
          [(future r, respond env (length (calls s)) (prompt r) (max_tokens r) (temperature r))]"
      "calls s' = calls s @
          [\<lparr>call_prompt = prompt r, call_max_tokens = max_tokens r,
            call_temperature = temperature r,
            call_result = respond env (length (calls s)) (prompt r) (max_tokens r) (temperature r)\<rparr>]"
    using drain_iteration_single [of ?s0 r env] assms by auto
  have "process_queue env s = process_loop env s'"
    using assms(1) s'(1) by (simp add: process_queue_def process_loop.simps [of env ?s0])
  also have "\<dots> = s'\<lparr>processing := False\<rparr>"
    using s'(2) by (simp add: process_loop.simps [of env s'])
  finally show ?thesis
    using s' by simp
qed

lemma submit_idle:
  assumes "idle s"
  shows "snd (submit_and_await (sole_caller env) (fst (create_future s)) p m t est (snd (create_future s)))
             = Some (respond env (length (calls s)) p m t)
         \<and> idle (fst (submit_and_await (sole_caller env) (fst (create_future s)) p m t est (snd (create_future s))))
         \<and> max_chunk_size (fst (submit_and_await (sole_caller env) (fst (create_future s)) p m t est (snd (create_future s))))
             = max_chunk_size s
         \<and> next_future (fst (submit_and_await (sole_caller env) (fst (create_future s)) p m t est (snd (create_future s))))
             = next_future s + 1
         \<and> calls (fst (submit_and_await (sole_caller env) (fst (create_future s)) p m t est (snd (create_future s))))
             = calls s @ [\<lparr>call_prompt = p, call_max_tokens = m, call_temperature = t,
                            call_result = respond env (length (calls s)) p m t\<rparr>]"
proof -
  let ?r = "\<lparr>prompt = p, max_tokens = m, temperature = t, estimated_tokens = est,
             future = next_future s\<rparr>"
  let ?s1 = "enqueue (fst (create_future s)) p m t est (snd (create_future s))"
  have fresh: "next_future s \<notin> fst ` set (resolved s)"
    using assms by (auto simp: idle_def list_all_iff)
  have q: "queue ?s1 = [?r]" "refill_rate (token_bucket ?s1) \<noteq> 0"
      "future ?r \<notin> fst ` set (resolved ?s1)" "\<not> processing ?s1"
      "next_future ?s1 = next_future s + 1" "calls ?s1 = calls s" "resolved ?s1 = resolved s"
      "max_chunk_size ?s1 = max_chunk_size s"
      "refill_rate (token_bucket ?s1) = refill_rate (token_bucket s)"
    using assms fresh by (simp_all add: idle_def enqueue_def create_future_def)
  note pq = process_queue_single [OF q(1,2,3), of env]
  have sa: "submit_and_await (sole_caller env) (fst (create_future s)) p m t est (snd (create_future s))
      = (process_queue env ?s1, await_future (process_queue env ?s1) (next_future s))"
    using q(4) by (simp add: submit_and_await_def sole_caller_def Let_def create_future_def)
  have aw: "await_future (process_queue env ?s1) (next_future s)
      = Some (respond env (length (calls s)) p m t)"
  proof -
    have none: "map_of (resolved s) (next_future s) = None"
      using fresh by (simp add: map_of_eq_None_iff)
    have "resolved (process_queue env ?s1)
        = resolved s @ [(next_future s, respond env (length (calls s)) p m t)]"
      using pq q(6,7) by simp
    then show ?thesis
      using none by (simp add: await_future_def map_add_def)
  qed
  have idl: "idle (process_queue env ?s1)"
    using pq q assms by (auto simp: idle_def list_all_iff)
  show ?thesis
    unfolding sa using aw idl pq q by simp
qed

lemma idle_sleep: "idle s \<Longrightarrow> idle (sleep s d)"
  by (simp add: idle_def sleep_def)

subsection \<open>A chunked submission, whatever the other tasks do\<close>

lemma chunk_loop_step:
  "chunk_loop others s sys m t n ((i, c) # rest) results =
     (let p = chunk_prompt sys n i c;
          est = estimate_tokens p + m;
          sr = submit_and_await others (fst (create_future s)) p m t est (snd (create_future s));
          sent = (\<lparr>prompt = p, max_tokens = m, temperature = t, estimated_tokens = est,
                   future = snd (create_future s)\<rparr>, snd sr)
      in case snd sr of
           None \<Rightarrow> (fst sr, None, [sent])
         | Some (Inl e) \<Rightarrow> (fst sr, Some (Inl e), [sent])
         | Some (Inr chunk_result) \<Rightarrow>
             (let run = chunk_loop others
                          (if int i < int n - 1
                           then others False (sleep (fst sr) (5 + of_int est / 10000)) else fst sr)
                          sys m t n rest (results @ [chunk_result])
              in (fst run, fst (snd run), sent # snd (snd run))))"
  by (cases "create_future s";
      cases "submit_and_await others (fst (create_future s)) (chunk_prompt sys n i c) m t
               (estimate_tokens (chunk_prompt sys n i c) + m) (snd (create_future s))")
     (auto simp: Let_def split: option.splits sum.splits prod.splits)

lemma chunk_loop_trace:
  "chunk_loop others s sys m t n (enumerate i0 cs) results = (s', res, tr) \<Longrightarrow>
     length tr \<le> length cs
     \<and> map (prompt \<circ> fst) tr = map (\<lambda>j. chunk_prompt sys n (i0 + j) (cs ! j)) [0..<length tr]
     \<and> list_all answered (butlast tr)
     \<and> (case res of
           None \<Rightarrow> tr \<noteq> [] \<and> snd (last tr) = None
         | Some (Inl e) \<Rightarrow> tr \<noteq> [] \<and> snd (last tr) = Some (Inl e)
         | Some (Inr out) \<Rightarrow> length tr = length cs \<and> list_all answered tr
             \<and> out = results @ map (\<lambda>a. projr (the (snd a))) tr)"
proof (induction cs arbitrary: s i0 results s' res tr)
  case Nil
  then show ?case by auto
next
  case (Cons c cs)
  let ?p = "chunk_prompt sys n i0 c"
  let ?est = "estimate_tokens ?p + m"
  let ?sr = "submit_and_await others (fst (create_future s)) ?p m t ?est (snd (create_future s))"
  let ?sent = "(\<lparr>prompt = ?p, max_tokens = m, temperature = t, estimated_tokens = ?est,
                   future = snd (create_future s)\<rparr>, snd ?sr)"
  note step = chunk_loop_step [of others s sys m t n i0 c "enumerate (Suc i0) cs" results]
  show ?case
  proof (cases "snd ?sr")
    case None
    then have "s' = fst ?sr" "res = None" "tr = [?sent]"
      using Cons.prems step by (simp_all add: Let_def)
    then show ?thesis
      using None by simp
  next
    case (Some r)
    show ?thesis
    proof (cases r)
      case (Inl e)
      then have "s' = fst ?sr" "res = Some (Inl e)" "tr = [?sent]"
        using Cons.prems step Some by (simp_all add: Let_def)
      then show ?thesis
        using Some Inl by simp
    next
      case (Inr x)
      let ?s3 = "if int i0 < int n - 1
                 then others False (sleep (fst ?sr) (5 + of_int ?est / 10000)) else fst ?sr"
      obtain s4 r4 more where run:
          "chunk_loop others ?s3 sys m t n (enumerate (Suc i0) cs) (results @ [x]) = (s4, r4, more)"
        by (cases "chunk_loop others ?s3 sys m t n (enumerate (Suc i0) cs) (results @ [x])") auto
      define sent where "sent = ?sent"
      have eq: "s' = s4" "res = r4" "tr = sent # more"
        using Cons.prems step Some Inr run by (simp_all add: Let_def sent_def)
      have ans: "answered sent" "snd sent = Some (Inr x)" "prompt (fst sent) = ?p"
        using Some Inr by (simp_all add: answered_def sent_def)
      have ih1: "length more \<le> length cs"
        and ih2: "map (prompt \<circ> fst) more
                    = map (\<lambda>j. chunk_prompt sys n (Suc i0 + j) (cs ! j)) [0..<length more]"
        and ih3: "list_all answered (butlast more)"
        and ih4: "(case r4 of
           None \<Rightarrow> more \<noteq> [] \<and> snd (last more) = None
         | Some (Inl e) \<Rightarrow> more \<noteq> [] \<and> snd (last more) = Some (Inl e)
         | Some (Inr out) \<Rightarrow> length more = length cs \<and> list_all answered more
             \<and> out = (results @ [x]) @ map (\<lambda>a. projr (the (snd a))) more)"
        using Cons.IH [OF run] by blast+
      have a: "length tr \<le> length (c # cs)"
        using ih1 eq(3) by simp
      have "map (prompt \<circ> fst) tr = ?p # map (prompt \<circ> fst) more"
        using eq(3) ans(3) by simp
      also have "\<dots> = ?p # map (\<lambda>j. chunk_prompt sys n (Suc i0 + j) (cs ! j)) [0..<length more]"
        using ih2 by simp
      also have "\<dots> = map (\<lambda>j. chunk_prompt sys n (i0 + j) ((c # cs) ! j)) [0..<Suc (length more)]"
        by (simp add: map_upt_Suc del: upt_Suc)
      finally have b: "map (prompt \<circ> fst) tr
          = map (\<lambda>j. chunk_prompt sys n (i0 + j) ((c # cs) ! j)) [0..<length tr]"
        using eq(3) by simp
      have c: "list_all answered (butlast tr)"
        using ih3 ans(1) eq(3) by simp
      have d: "(case res of
           None \<Rightarrow> tr \<noteq> [] \<and> snd (last tr) = None
         | Some (Inl e) \<Rightarrow> tr \<noteq> [] \<and> snd (last tr) = Some (Inl e)
         | Some (Inr out) \<Rightarrow> length tr = length (c # cs) \<and> list_all answered tr
             \<and> out = results @ map (\<lambda>a. projr (the (snd a))) tr)"
      proof (cases r4)
        case None
        then show ?thesis
          using ih4 eq(2,3) by simp
      next
        case (Some r')
        show ?thesis
        proof (cases r')
          case (Inl e)
          then show ?thesis
            using ih4 Some eq(2,3) by simp
        next
          case (Inr out)
          then show ?thesis
            using ih4 Some eq(2,3) ans(1,2) by simp
        qed
      qed
      show ?thesis
        by (rule conjI [OF a conjI [OF b conjI [OF c d]]])
    qed
  qed
qed

subsection \<open>A chunked submission by one caller on an idle queue\<close>

lemma sole_caller_False: "sole_caller env False s = s"
  by (simp add: sole_caller_def)

lemma chunk_loop_sole_step:
  assumes "idle s"
    and p_def: "p = chunk_prompt sys n i c"
    and r_def: "r = respond env (length (calls s)) p m t"
    and sent_def: "sent = (\<lparr>prompt = p, max_tokens = m, temperature = t,
                      estimated_tokens = estimate_tokens p + m, future = next_future s\<rparr>, Some r)"
  shows "\<exists>s3. idle s3 \<and> next_future s3 = Suc (next_future s)
           \<and> calls s3 = calls s @ [\<lparr>call_prompt = p, call_max_tokens = m,
                                      call_temperature = t, call_result = r\<rparr>]
           \<and> chunk_loop (sole_caller env) s sys m t n ((i, c) # rest) results =
               (case r of
                  Inl e \<Rightarrow> (s3, Some (Inl e), [sent])
                | Inr x \<Rightarrow>
                    (let run = chunk_loop (sole_caller env)
                                 (if int i < int n - 1
                                  then sleep s3 (5 + of_int (estimate_tokens p + m) / 10000) else s3)
                                 sys m t n rest (results @ [x])
                     in (fst run, fst (snd run), sent # snd (snd run))))"
proof -
  define sr where "sr = submit_and_await (sole_caller env) (fst (create_future s)) p m t
                          (estimate_tokens p + m) (snd (create_future s))"
  have sub: "snd sr = Some r" "idle (fst sr)" "next_future (fst sr) = Suc (next_future s)"
      "calls (fst sr) = calls s @ [\<lparr>call_prompt = p, call_max_tokens = m,
                                      call_temperature = t, call_result = r\<rparr>]"
    using submit_idle [OF assms(1), of env p m t "estimate_tokens p + m"]
    unfolding sr_def r_def by simp_all
  have fut: "snd (create_future s) = next_future s"
    by (simp add: create_future_def)
  have "chunk_loop (sole_caller env) s sys m t n ((i, c) # rest) results =
               (case r of
                  Inl e \<Rightarrow> (fst sr, Some (Inl e), [sent])
                | Inr x \<Rightarrow>
                    (let run = chunk_loop (sole_caller env)
                                 (if int i < int n - 1
                                  then sleep (fst sr) (5 + of_int (estimate_tokens p + m) / 10000)
                                  else fst sr)
                                 sys m t n rest (results @ [x])
                     in (fst run, fst (snd run), sent # snd (snd run))))"
  proof -
    have step: "chunk_loop (sole_caller env) s sys m t n ((i, c) # rest) results =
       (case snd sr of
           None \<Rightarrow> (fst sr, None, [(\<lparr>prompt = p, max_tokens = m, temperature = t,
                   estimated_tokens = estimate_tokens p + m,
                   future = snd (create_future s)\<rparr>, snd sr)])
         | Some (Inl e) \<Rightarrow> (fst sr, Some (Inl e), [(\<lparr>prompt = p, max_tokens = m, temperature = t,
                   estimated_tokens = estimate_tokens p + m,
                   future = snd (create_future s)\<rparr>, snd sr)])
         | Some (Inr chunk_result) \<Rightarrow>
             (let run = chunk_loop (sole_caller env)
                          (if int i < int n - 1
                           then sole_caller env False (sleep (fst sr) (5 + of_int (estimate_tokens p + m) / 10000))
                           else fst sr)
                          sys m t n rest (results @ [chunk_result])
              in (fst run, fst (snd run), (\<lparr>prompt = p, max_tokens = m, temperature = t,
                   estimated_tokens = estimate_tokens p + m,
                   future = snd (create_future s)\<rparr>, snd sr) # snd (snd run))))"
      unfolding chunk_loop_step [of "sole_caller env" s sys m t n i c rest results] Let_def
        p_def sr_def ..
    show ?thesis
      unfolding step sub(1) fut sent_def sole_caller_False
      by (cases r) simp_all
  qed
  then show ?thesis
    using sub(2,3,4) by blast
qed

lemma sole_shift:
  assumes "next_future s3 = Suc (next_future s)" and "length (calls s3) = Suc (length (calls s))"
  shows "sole_entry env sys n m t s3 (Suc i0) cs j = sole_entry env sys n m t s i0 (c # cs) (Suc j)"
    and "sole_call env sys n m t s3 (Suc i0) cs j = sole_call env sys n m t s i0 (c # cs) (Suc j)"
  using assms by (simp_all add: sole_entry_def sole_call_def)

lemma chunk_loop_fail:
  assumes "idle s" and "k < length cs"
    and "\<forall>j<k. \<exists>x. respond env (length (calls s) + j)
                          (chunk_prompt sys n (i0 + j) (cs ! j)) m t = Inr x"
    and "respond env (length (calls s) + k) (chunk_prompt sys n (i0 + k) (cs ! k)) m t = Inl e"
  shows "\<exists>s'. chunk_loop (sole_caller env) s sys m t n (enumerate i0 cs) results =
             (s', Some (Inl e), map (sole_entry env sys n m t s i0 cs) [0..<Suc k])
           \<and> idle s' \<and> next_future s' = next_future s + k + 1
           \<and> calls s' = calls s @ map (sole_call env sys n m t s i0 cs) [0..<Suc k]"
  using assms
proof (induction cs arbitrary: s k i0 results)
  case Nil
  then show ?case by simp
next
  case (Cons c cs)
  define p where "p = chunk_prompt sys n i0 c"
  define r where "r = respond env (length (calls s)) p m t"
  define sent :: awaited where "sent = (\<lparr>prompt = p, max_tokens = m, temperature = t,
                      estimated_tokens = estimate_tokens p + m, future = next_future s\<rparr>, Some r)"
  have sent: "sent = sole_entry env sys n m t s i0 (c # cs) 0"
    by (simp add: sent_def sole_entry_def p_def r_def)
  obtain s3 where s3: "idle s3" "next_future s3 = Suc (next_future s)"
      "calls s3 = calls s @ [\<lparr>call_prompt = p, call_max_tokens = m,
                                      call_temperature = t, call_result = r\<rparr>]"
      "chunk_loop (sole_caller env) s sys m t n ((i0, c) # enumerate (Suc i0) cs) results =
               (case r of
                  Inl e \<Rightarrow> (s3, Some (Inl e), [sent])
                | Inr x \<Rightarrow>
                    (let run = chunk_loop (sole_caller env)
                                 (if int i0 < int n - 1
                                  then sleep s3 (5 + of_int (estimate_tokens p + m) / 10000) else s3)
                                 sys m t n (enumerate (Suc i0) cs) (results @ [x])
                     in (fst run, fst (snd run), sent # snd (snd run))))"
    using chunk_loop_sole_step [OF Cons.prems(1) p_def r_def sent_def] by blast
  have call0: "\<lparr>call_prompt = p, call_max_tokens = m, call_temperature = t, call_result = r\<rparr>
      = sole_call env sys n m t s i0 (c # cs) 0"
    by (simp add: sole_call_def p_def r_def)
  show ?case
  proof (cases k)
    case 0
    then have "r = Inl e"
      using Cons.prems(4) by (simp add: r_def p_def)
    then show ?thesis
      using s3 0 sent call0 by simp
  next
    case (Suc k')
    obtain x where x: "r = Inr x"
      using Cons.prems(3) [rule_format, of 0] Suc by (auto simp: r_def p_def)
    define s4 where "s4 = (if int i0 < int n - 1
                           then sleep s3 (5 + of_int (estimate_tokens p + m) / 10000) else s3)"
    have s4: "idle s4" "next_future s4 = Suc (next_future s)"
        "calls s4 = calls s @ [sole_call env sys n m t s i0 (c # cs) 0]"
        "length (calls s4) = Suc (length (calls s))"
      using s3(1,2,3) call0 by (simp_all add: s4_def idle_sleep) (simp_all add: sleep_def)
    have a: "k' < length cs"
      using Cons.prems(2) Suc by simp
    have b: "\<forall>j<k'. \<exists>x. respond env (length (calls s4) + j)
                          (chunk_prompt sys n (Suc i0 + j) (cs ! j)) m t = Inr x"
    proof (intro allI impI)
      fix j assume "j < k'"
      then have "Suc j < k" using Suc by simp
      then show "\<exists>x. respond env (length (calls s4) + j)
                          (chunk_prompt sys n (Suc i0 + j) (cs ! j)) m t = Inr x"
        using Cons.prems(3) [rule_format, of "Suc j"] s4(4) by simp
    qed
    have c: "respond env (length (calls s4) + k') (chunk_prompt sys n (Suc i0 + k') (cs ! k')) m t = Inl e"
      using Cons.prems(4) Suc s4(4) by simp
    obtain s' where s': "chunk_loop (sole_caller env) s4 sys m t n (enumerate (Suc i0) cs) (results @ [x])
          = (s', Some (Inl e), map (sole_entry env sys n m t s4 (Suc i0) cs) [0..<Suc k'])"
        "idle s'" "next_future s' = next_future s4 + k' + 1"
        "calls s' = calls s4 @ map (sole_call env sys n m t s4 (Suc i0) cs) [0..<Suc k']"
      using Cons.IH [OF s4(1) a b c, of "results @ [x]"] by blast
    note shift = sole_shift [OF s4(2,4), of env sys n m t i0 cs _ c]
    have tr: "sent # map (sole_entry env sys n m t s4 (Suc i0) cs) [0..<Suc k']
        = map (sole_entry env sys n m t s i0 (c # cs)) [0..<Suc k]"
      unfolding Suc sent shift by (simp add: map_upt_Suc del: upt_Suc)
    have cl: "calls s' = calls s @ map (sole_call env sys n m t s i0 (c # cs)) [0..<Suc k]"
      unfolding s'(4) s4(3) Suc shift by (simp add: map_upt_Suc del: upt_Suc)
    have "chunk_loop (sole_caller env) s sys m t n (enumerate i0 (c # cs)) results
        = (s', Some (Inl e), sent # map (sole_entry env sys n m t s4 (Suc i0) cs) [0..<Suc k'])"
      using s3(4) x s'(1) unfolding s4_def [symmetric] by (simp add: Let_def del: upt_Suc)
    then show ?thesis
      using s'(2,3) s4(2) Suc cl unfolding tr by simp
  qed
qed

lemma chunk_loop_success:
  assumes "idle s"
    and "\<forall>j<length cs. \<exists>x. respond env (length (calls s) + j)
                          (chunk_prompt sys n (i0 + j) (cs ! j)) m t = Inr x"
  shows "\<exists>s'. chunk_loop (sole_caller env) s sys m t n (enumerate i0 cs) results =
             (s', Some (Inr (results @
                map (\<lambda>j. projr (respond env (length (calls s) + j)
                                    (chunk_prompt sys n (i0 + j) (cs ! j)) m t)) [0..<length cs])),
              map (sole_entry env sys n m t s i0 cs) [0..<length cs])
           \<and> idle s' \<and> next_future s' = next_future s + length cs
           \<and> calls s' = calls s @ map (sole_call env sys n m t s i0 cs) [0..<length cs]"
  using assms
proof (induction cs arbitrary: s i0 results)
  case Nil
  then show ?case by simp
next
  case (Cons c cs)
  define p where "p = chunk_prompt sys n i0 c"
  define r where "r = respond env (length (calls s)) p m t"
  define sent :: awaited where "sent = (\<lparr>prompt = p, max_tokens = m, temperature = t,
                      estimated_tokens = estimate_tokens p + m, future = next_future s\<rparr>, Some r)"
  have sent: "sent = sole_entry env sys n m t s i0 (c # cs) 0"
    by (simp add: sent_def sole_entry_def p_def r_def)
  obtain s3 where s3: "idle s3" "next_future s3 = Suc (next_future s)"
      "calls s3 = calls s @ [\<lparr>call_prompt = p, call_max_tokens = m,
                                      call_temperature = t, call_result = r\<rparr>]"
      "chunk_loop (sole_caller env) s sys m t n ((i0, c) # enumerate (Suc i0) cs) results =
               (case r of
                  Inl e \<Rightarrow> (s3, Some (Inl e), [sent])
                | Inr x \<Rightarrow>
                    (let run = chunk_loop (sole_caller env)
                                 (if int i0 < int n - 1
                                  then sleep s3 (5 + of_int (estimate_tokens p + m) / 10000) else s3)
                                 sys m t n (enumerate (Suc i0) cs) (results @ [x])
                     in (fst run, fst (snd run), sent # snd (snd run))))"
    using chunk_loop_sole_step [OF Cons.prems(1) p_def r_def sent_def] by blast
  have call0: "\<lparr>call_prompt = p, call_max_tokens = m, call_temperature = t, call_result = r\<rparr>
      = sole_call env sys n m t s i0 (c # cs) 0"
    by (simp add: sole_call_def p_def r_def)
  obtain x where x: "r = Inr x"
    using Cons.prems(2) [rule_format, of 0] by (auto simp: r_def p_def)
  define s4 where "s4 = (if int i0 < int n - 1
                         then sleep s3 (5 + of_int (estimate_tokens p + m) / 10000) else s3)"
  have s4: "idle s4" "next_future s4 = Suc (next_future s)"
      "calls s4 = calls s @ [sole_call env sys n m t s i0 (c # cs) 0]"
      "length (calls s4) = Suc (length (calls s))"
    using s3(1,2,3) call0 by (simp_all add: s4_def idle_sleep) (simp_all add: sleep_def)
  have b: "\<forall>j<length cs. \<exists>x. respond env (length (calls s4) + j)
                        (chunk_prompt sys n (Suc i0 + j) (cs ! j)) m t = Inr x"
  proof (intro allI impI)
    fix j assume "j < length cs"
    then have "Suc j < length (c # cs)" by simp
    then show "\<exists>x. respond env (length (calls s4) + j)
                        (chunk_prompt sys n (Suc i0 + j) (cs ! j)) m t = Inr x"
      using Cons.prems(2) [rule_format, of "Suc j"] s4(4) by simp
  qed
  obtain s' where s': "chunk_loop (sole_caller env) s4 sys m t n (enumerate (Suc i0) cs) (results @ [x])
        = (s', Some (Inr ((results @ [x]) @
                map (\<lambda>j. projr (respond env (length (calls s4) + j)
                                    (chunk_prompt sys n (Suc i0 + j) (cs ! j)) m t)) [0..<length cs])),
           map (sole_entry env sys n m t s4 (Suc i0) cs) [0..<length cs])"
      "idle s'" "next_future s' = next_future s4 + length cs"
      "calls s' = calls s4 @ map (sole_call env sys n m t s4 (Suc i0) cs) [0..<length cs]"
    using Cons.IH [OF s4(1) b, of "results @ [x]"] by blast
  note shift = sole_shift [OF s4(2,4), of env sys n m t i0 cs _ c]
  have tr: "sent # map (sole_entry env sys n m t s4 (Suc i0) cs) [0..<length cs]
      = map (sole_entry env sys n m t s i0 (c # cs)) [0..<length (c # cs)]"
    unfolding sent shift by (simp add: map_upt_Suc del: upt_Suc)
  have cl: "calls s' = calls s @ map (sole_call env sys n m t s i0 (c # cs)) [0..<length (c # cs)]"
    unfolding s'(4) s4(3) shift by (simp add: map_upt_Suc del: upt_Suc)
  have out: "(results @ [x]) @
                map (\<lambda>j. projr (respond env (length (calls s4) + j)
                                    (chunk_prompt sys n (Suc i0 + j) (cs ! j)) m t)) [0..<length cs]
      = results @ map (\<lambda>j. projr (respond env (length (calls s) + j)
                                    (chunk_prompt sys n (i0 + j) ((c # cs) ! j)) m t)) [0..<length (c # cs)]"
    unfolding s4(4) using x by (simp add: map_upt_Suc r_def p_def del: upt_Suc)
  have "chunk_loop (sole_caller env) s sys m t n (enumerate i0 (c # cs)) results
      = (s', Some (Inr ((results @ [x]) @
                map (\<lambda>j. projr (respond env (length (calls s4) + j)
                                    (chunk_prompt sys n (Suc i0 + j) (cs ! j)) m t)) [0..<length cs])),
         sent # map (sole_entry env sys n m t s4 (Suc i0) cs) [0..<length cs])"
    using s3(4) x s'(1) unfolding s4_def [symmetric] by (simp add: Let_def del: upt_Suc)
  then show ?case
    using s'(2,3) s4(2) cl unfolding tr out by simp
qed

subsection \<open>Failure of a chunk\<close>

text \<open>
  C9 (a failing chunk aborts the submission).  For every state of the queue, every
  prompt and everything the other tasks may do while the caller waits:
  \<open>_process_large_request\<close> appends requests for the chunk prompts in order, one
  after the other; the await of every request but the last one appended returned a
  text; an await that raises \<open>e\<close> belongs to the last request appended, so no later
  chunk is appended, and the call then raises \<open>e\<close> and returns no text; and a call
  that returns a text has appended all chunks, each was answered, and the text is the
  answers joined by blank lines.
\<close>

theorem chunk_failure_aborts:
  assumes "chunk_plan s p m = (system_prompt, chunks)"
    and "large_request_run others s p m t = (s', res, sent)"
  shows "process_large_request others s p m t
           = (s', map_option (map_sum id (py_join ''\<newline>\<newline>'')) res)
       \<and> length sent \<le> length chunks
       \<and> map (prompt \<circ> fst) sent
           = map (\<lambda>j. chunk_prompt system_prompt (length chunks) j (chunks ! j)) [0..<length sent]
       \<and> list_all answered (butlast sent)
       \<and> (\<forall>j e. j < length sent \<and> snd (sent ! j) = Some (Inl e) \<longrightarrow>
             Suc j = length sent \<and> process_large_request others s p m t = (s', Some (Inl e)))
       \<and> (\<forall>x. snd (process_large_request others s p m t) = Some (Inr x) \<longrightarrow>
             length sent = length chunks \<and> list_all answered sent
             \<and> x = py_join ''\<newline>\<newline>'' (map (\<lambda>a. projr (the (snd a))) sent))"
proof -
  have loop: "chunk_loop others s system_prompt m t (length chunks) (enumerate 0 chunks) []
                = (s', res, sent)"
    using assms by (simp add: large_request_run_def)
  have plr: "process_large_request others s p m t
           = (s', map_option (map_sum id (py_join ''\<newline>\<newline>'')) res)"
    using assms(2) by (simp add: process_large_request_def)
  have len: "length sent \<le> length chunks"
    and prompts: "map (prompt \<circ> fst) sent
           = map (\<lambda>j. chunk_prompt system_prompt (length chunks) (0 + j) (chunks ! j)) [0..<length sent]"
    and but: "list_all answered (butlast sent)"
    and last: "(case res of
           None \<Rightarrow> sent \<noteq> [] \<and> snd (last sent) = None
         | Some (Inl e) \<Rightarrow> sent \<noteq> [] \<and> snd (last sent) = Some (Inl e)
         | Some (Inr out) \<Rightarrow> length sent = length chunks \<and> list_all answered sent
             \<and> out = [] @ map (\<lambda>a. projr (the (snd a))) sent)"
    using chunk_loop_trace [OF loop] by blast+
  have fail: "Suc j = length sent \<and> process_large_request others s p m t = (s', Some (Inl e))"
    if j: "j < length sent" and e: "snd (sent ! j) = Some (Inl e)" for j e
  proof -
    have na: "\<not> answered (sent ! j)"
      using e by (simp add: answered_def)
    have at_end: "Suc j = length sent"
    proof (rule ccontr)
      assume "Suc j \<noteq> length sent"
      then have "j < length (butlast sent)"
        using j by simp
      then have "answered (butlast sent ! j)"
        using but by (simp add: list_all_length)
      then show False
        using na \<open>j < length (butlast sent)\<close> by (simp add: nth_butlast)
    qed
    have ne: "sent \<noteq> []"
      using j by auto
    have "last sent = sent ! (length sent - 1)"
      using ne by (rule last_conv_nth)
    moreover have "length sent - 1 = j"
      using at_end by arith
    ultimately have l: "last sent = sent ! j" "sent \<noteq> []"
      using ne by simp_all
    have "res = Some (Inl e)"
    proof (cases res)
      case None
      then show ?thesis using last l e by simp
    next
      case (Some r)
      show ?thesis
      proof (cases r)
        case (Inl e')
        then show ?thesis using last l e Some by simp
      next
        case (Inr out)
        then have "answered (sent ! j)"
          using last Some j by (simp add: list_all_length)
        then show ?thesis using na by simp
      qed
    qed
    then show ?thesis
      using at_end plr by simp
  qed
  have ok: "length sent = length chunks \<and> list_all answered sent
             \<and> x = py_join ''\<newline>\<newline>'' (map (\<lambda>a. projr (the (snd a))) sent)"
    if "snd (process_large_request others s p m t) = Some (Inr x)" for x
  proof -
    have r: "map_option (map_sum id (py_join ''\<newline>\<newline>'')) res = Some (Inr x)"
      using that plr by simp
    then obtain r0 where r0: "res = Some r0" "map_sum id (py_join ''\<newline>\<newline>'') r0 = Inr x"
      by (cases res) auto
    then obtain out where "res = Some (Inr out)" "x = py_join ''\<newline>\<newline>'' out"
      by (cases r0) auto
    then show ?thesis
      using last by simp
  qed
  have prompts': "map (prompt \<circ> fst) sent
           = map (\<lambda>j. chunk_prompt system_prompt (length chunks) j (chunks ! j)) [0..<length sent]"
    using prompts by simp
  have fail': "\<forall>j e. j < length sent \<and> snd (sent ! j) = Some (Inl e) \<longrightarrow>
             Suc j = length sent \<and> process_large_request others s p m t = (s', Some (Inl e))"
    using fail by blast
  have ok': "\<forall>x. snd (process_large_request others s p m t) = Some (Inr x) \<longrightarrow>
             length sent = length chunks \<and> list_all answered sent
             \<and> x = py_join ''\<newline>\<newline>'' (map (\<lambda>a. projr (the (snd a))) sent)"
    using ok by blast
  show ?thesis
    by (rule conjI [OF plr conjI [OF len conjI [OF prompts' conjI [OF but conjI [OF fail' ok']]]]])
qed

text \<open>
  The prompt \<open>a b\<close> with \<open>max_tokens = 15000\<close> on a new queue is split into three
  chunks; the provider fails on its second call.  Two requests are appended and the
  call raises the provider's error.
\<close>

theorem chunk_failure_aborts_witness:
  "\<exists>s'. large_request_run
          (sole_caller \<lparr>respond = (\<lambda>k p m t. if k = 1 then Inl (ProviderError ''overloaded'') else Inr ''ok''),
                        latency = (\<lambda>k. 1)\<rparr>)
          (init_queue 30000 0) ''a b'' 15000 (1 / 5)
        = (s', Some (Inl (ProviderError ''overloaded'')),
           [(\<lparr>prompt = ''\<newline>\<newline>This is part 1 of 3 of a larger document.\<newline>\<newline>'',
              max_tokens = 15000, temperature = 1 / 5, estimated_tokens = 15012, future = 0\<rparr>,
             Some (Inr ''ok'')),
            (\<lparr>prompt = ''\<newline>\<newline>This is part 2 of 3 of a larger document.\<newline>\<newline>a '',
              max_tokens = 15000, temperature = 1 / 5, estimated_tokens = 15012, future = 1\<rparr>,
             Some (Inl (ProviderError ''overloaded'')))])
      \<and> process_large_request
          (sole_caller \<lparr>respond = (\<lambda>k p m t. if k = 1 then Inl (ProviderError ''overloaded'') else Inr ''ok''),
                        latency = (\<lambda>k. 1)\<rparr>)
          (init_queue 30000 0) ''a b'' 15000 (1 / 5)
        = (s', Some (Inl (ProviderError ''overloaded'')))"
proof -
  let ?env = "\<lparr>respond = (\<lambda>k p m t. if k = 1 then Inl (ProviderError ''overloaded'') else Inr ''ok''),
           latency = (\<lambda>k. 1)\<rparr> :: environment"
  let ?e = "ProviderError ''overloaded''"
  let ?sent = "[(\<lparr>prompt = ''\<newline>\<newline>This is part 1 of 3 of a larger document.\<newline>\<newline>'',
              max_tokens = 15000, temperature = 1 / 5, estimated_tokens = 15012, future = 0\<rparr>,
             Some (Inr ''ok'')),
            (\<lparr>prompt = ''\<newline>\<newline>This is part 2 of 3 of a larger document.\<newline>\<newline>a '',
              max_tokens = 15000, temperature = 1 / 5, estimated_tokens = 15012, future = 1\<rparr>,
             Some (Inl ?e))] :: awaited list"
  have st: "split_text ''a b'' (- 1) = [[], ''a '', ''b '']"
    by (simp add: split_text_def paragraph_step_def sentence_step_def word_step_def flush_chunk_def)
  have plan: "chunk_plan (init_queue 30000 0) ''a b'' 15000 = ([], [[], ''a '', ''b ''])"
    using st by (simp add: chunk_plan_def estimate_tokens_def init_queue_def)
  have idl: "idle (init_queue 30000 0)"
    by (simp add: idle_def init_queue_def init_bucket_def)
  have c0: "calls (init_queue 30000 0) = []" "next_future (init_queue 30000 0) = 0"
    by (simp_all add: init_queue_def)
  have entries: "map (sole_entry ?env [] 3 15000 (1 / 5) (init_queue 30000 0) 0 [[], ''a '', ''b ''])
                   [0..<Suc 1] = ?sent"
    by (simp add: sole_entry_def c0 chunk_prompt_def str_nat.simps digit_char_def
          estimate_tokens_def upt_rec)
  have len3: "length [[], ''a '', ''b ''] = 3"
    by simp
  obtain s' where run0: "chunk_loop (sole_caller ?env) (init_queue 30000 0) [] 15000 (1 / 5) 3
        (enumerate 0 [[], ''a '', ''b '']) []
      = (s', Some (Inl ?e),
         map (sole_entry ?env [] 3 15000 (1 / 5) (init_queue 30000 0) 0 [[], ''a '', ''b '']) [0..<Suc 1])"
  proof -
    have h2: "(1::nat) < length [[], ''a '', ''b '']"
      by simp
    have h3: "\<forall>j<(1::nat). \<exists>x. respond ?env (length (calls (init_queue 30000 0)) + j)
                (chunk_prompt [] 3 (0 + j) ([[], ''a '', ''b ''] ! j)) 15000 (1 / 5) = Inr x"
      by (simp add: c0)
    have h4: "respond ?env (length (calls (init_queue 30000 0)) + 1)
                (chunk_prompt [] 3 (0 + 1) ([[], ''a '', ''b ''] ! 1)) 15000 (1 / 5) = Inl ?e"
      by (simp add: c0)
    show ?thesis
      using chunk_loop_fail [OF idl h2 h3 h4, of "[]"] that by blast
  qed
  have run: "large_request_run (sole_caller ?env) (init_queue 30000 0) ''a b'' 15000 (1 / 5)
      = (s', Some (Inl ?e), ?sent)"
    unfolding large_request_run_def plan Let_def prod.case len3
    by (rule run0 [unfolded entries])
  have "process_large_request (sole_caller ?env) (init_queue 30000 0) ''a b'' 15000 (1 / 5)
      = (s', Some (Inl ?e))"
    using chunk_failure_aborts [OF plan run] by simp
  then show ?thesis
    using run by blast
qed

lemma process_large_request_success:
  assumes "idle s" and "chunk_plan s p m = (sys, chunks)"
    and "\<forall>j<length chunks. \<exists>x. respond env (length (calls s) + j)
                          (chunk_prompt sys (length chunks) j (chunks ! j)) m t = Inr x"
  shows "snd (process_large_request (sole_caller env) s p m t) =
           Some (Inr (py_join ''\<newline>\<newline>''
             (map (\<lambda>j. projr (respond env (length (calls s) + j)
                            (chunk_prompt sys (length chunks) j (chunks ! j)) m t)) [0..<length chunks])))
       \<and> idle (fst (process_large_request (sole_caller env) s p m t))
       \<and> calls (fst (process_large_request (sole_caller env) s p m t)) = calls s @
            map (sole_call env sys (length chunks) m t s 0 chunks) [0..<length chunks]"
proof -
  obtain s' where s': "chunk_loop (sole_caller env) s sys m t (length chunks) (enumerate 0 chunks) [] =
             (s', Some (Inr ([] @
                map (\<lambda>j. projr (respond env (length (calls s) + j)
                                    (chunk_prompt sys (length chunks) (0 + j) (chunks ! j)) m t)) [0..<length chunks])),
              map (sole_entry env sys (length chunks) m t s 0 chunks) [0..<length chunks])"
      "idle s'"
      "calls s' = calls s @ map (sole_call env sys (length chunks) m t s 0 chunks) [0..<length chunks]"
    using chunk_loop_success [of s chunks env sys "length chunks" 0 m t "[]"] assms by auto
  have "process_large_request (sole_caller env) s p m t = (s', Some (Inr (py_join ''\<newline>\<newline>''
             (map (\<lambda>j. projr (respond env (length (calls s) + j)
                            (chunk_prompt sys (length chunks) j (chunks ! j)) m t)) [0..<length chunks]))))"
    using assms(2) s'(1) by (simp add: process_large_request_def large_request_run_def)
  then show ?thesis
    using s' by simp
qed

subsection \<open>Estimate and routing\<close>

text \<open>
  C7 (estimate and routing), as the code has it.  \<open>add_request\<close> estimates
  \<open>len(p) // 4 + 1 + m\<close> tokens; when the estimate is at most \<open>max_chunk_size\<close> it
  enqueues the prompt as one request with that estimate and awaits its future, and
  otherwise it runs \<open>_process_large_request\<close>.
\<close>

theorem add_request_route:
  "add_request others s p m t =
     (if int (length p) div 4 + 1 + m \<le> max_chunk_size s
      then submit_and_await others (fst (create_future s)) p m t
             (int (length p) div 4 + 1 + m) (snd (create_future s))
      else process_large_request others (fst (create_future s)) p m t)"
  by (simp add: add_request_def estimate_tokens_def create_future_def Let_def)

text \<open>
  The claim as the spec states it, with the estimate \<open>len(p) / 4 + m\<close>: for the empty
  prompt and \<open>m = 15000\<close> that estimate is 15000, within the ceiling, but the code
  estimates 15001 and sends two chunk prompts.
\<close>

theorem add_request_route_counterexample:
  "int (length ([] :: string)) div 4 + 15000 \<le> max_chunk_size (init_queue 30000 0)
   \<and> estimate_tokens [] + 15000 = 15001
   \<and> map call_prompt (calls (fst (add_request
          (sole_caller \<lparr>respond = (\<lambda>k p m t. Inr ''ok''), latency = (\<lambda>k. 1)\<rparr>)
          (init_queue 30000 0) [] 15000 (1 / 5))))
      = [''\<newline>\<newline>This is part 1 of 2 of a larger document.\<newline>\<newline>'',
         ''\<newline>\<newline>This is part 2 of 2 of a larger document.\<newline>\<newline> '']"
proof -
  let ?env = "\<lparr>respond = (\<lambda>k p m t. Inr ''ok''), latency = (\<lambda>k. 1)\<rparr> :: environment"
  let ?s1 = "fst (create_future (init_queue 30000 0))"
  have st: "split_text [] (- 1) = [[], '' '']"
    by (simp add: split_text_def paragraph_step_def sentence_step_def word_step_def flush_chunk_def)
  have plan: "chunk_plan ?s1 [] 15000 = ([], [[], '' ''])"
    using st by (simp add: chunk_plan_def estimate_tokens_def init_queue_def create_future_def)
  have idl: "idle ?s1"
    by (simp add: idle_def init_queue_def init_bucket_def create_future_def)
  have c0: "calls ?s1 = []"
    by (simp add: init_queue_def create_future_def)
  have "add_request (sole_caller ?env) (init_queue 30000 0) [] 15000 (1 / 5)
      = process_large_request (sole_caller ?env) ?s1 [] 15000 (1 / 5)"
    by (simp add: add_request_def estimate_tokens_def create_future_def init_queue_def)
  moreover have "map call_prompt (calls (fst (process_large_request (sole_caller ?env) ?s1 [] 15000 (1 / 5))))
      = [''\<newline>\<newline>This is part 1 of 2 of a larger document.\<newline>\<newline>'',
         ''\<newline>\<newline>This is part 2 of 2 of a larger document.\<newline>\<newline> '']"
    using process_large_request_success [OF idl plan, of ?env "1 / 5"]
    by (simp add: c0 sole_call_def chunk_prompt_def str_nat.simps digit_char_def upt_rec)
  ultimately show ?thesis
    by (simp add: estimate_tokens_def init_queue_def)
qed

subsection \<open>Consume after the wait\<close>

text \<open>
  C10 (consume after the wait).  \<open>add_request("", 39988)\<close> on a new queue is chunked,
  and its first chunk is estimated at 40000 tokens, over the bucket's capacity of 30000.
  \<open>get_wait_time\<close> answers 20 seconds; after the sleep the refill is clamped to
  30000 and \<open>consume(40000)\<close> returns False.  \<open>_process_queue\<close> drops that result: the
  balance stays 30000 and the call of the provider is made.  Every number of this run is
  a whole number, which the floats of the source compute without rounding.
\<close>

theorem drain_consume_fails_over_capacity:
  "chunk_plan (fst (create_future (init_queue 30000 0))) [] 39988 = ([], [[], '' ''])
   \<and> chunk_prompt [] 2 0 [] = ''\<newline>\<newline>This is part 1 of 2 of a larger document.\<newline>\<newline>''
   \<and> estimate_tokens ''\<newline>\<newline>This is part 1 of 2 of a larger document.\<newline>\<newline>'' + 39988 = 40000
   \<and> snd (drain_peek
        (enqueue (init_queue 30000 0) ''\<newline>\<newline>This is part 1 of 2 of a larger document.\<newline>\<newline>''
           39988 (1 / 5) 40000 1)
        \<lparr>prompt = ''\<newline>\<newline>This is part 1 of 2 of a larger document.\<newline>\<newline>'', max_tokens = 39988,
         temperature = 1 / 5, estimated_tokens = 40000, future = 1\<rparr>) = Inr 20
   \<and> \<not> snd (consume (init_bucket 30000 500 0) (0 + 20) 40000)
   \<and> tokens (token_bucket (fst (drain_iteration
        \<lparr>respond = (\<lambda>k p m t. Inr ''ok''), latency = (\<lambda>k. 1)\<rparr>
        (enqueue (init_queue 30000 0) ''\<newline>\<newline>This is part 1 of 2 of a larger document.\<newline>\<newline>''
           39988 (1 / 5) 40000 1)))) = 30000
   \<and> map call_max_tokens (calls (fst (drain_iteration
        \<lparr>respond = (\<lambda>k p m t. Inr ''ok''), latency = (\<lambda>k. 1)\<rparr>
        (enqueue (init_queue 30000 0) ''\<newline>\<newline>This is part 1 of 2 of a larger document.\<newline>\<newline>''
           39988 (1 / 5) 40000 1)))) = [39988]"
proof -
  have st: "split_text [] (- 24989) = [[], '' '']"
    by (simp add: split_text_def paragraph_step_def sentence_step_def word_step_def flush_chunk_def)
  have plan: "chunk_plan (fst (create_future (init_queue 30000 0))) [] 39988 = ([], [[], '' ''])"
    using st by (simp add: chunk_plan_def estimate_tokens_def init_queue_def create_future_def)
  have cp: "chunk_prompt [] 2 0 [] = ''\<newline>\<newline>This is part 1 of 2 of a larger document.\<newline>\<newline>''"
    by (simp add: chunk_prompt_def str_nat.simps digit_char_def)
  show ?thesis
    unfolding plan cp
    by (simp add: estimate_tokens_def drain_iteration_def drain_peek_def drain_admit_def
          drain_resolve_def make_api_call_def set_future_def sleep_def get_wait_time_def
          consume_def refill_def init_bucket_def enqueue_def init_queue_def Let_def)
qed

subsection \<open>One drain loop is first in, first out\<close>

text \<open>
  A single run of \<open>_process_queue\<close>, with no other task in between, resolves the
  futures of the queued requests in the order of the queue.
\<close>

lemma drain_iteration_head:
  assumes "queue s = r # rest" and "refill_rate (token_bucket s) \<noteq> 0"
    and "future r \<notin> fst ` set (resolved s)"
  shows "\<exists>s'. drain_iteration env s = (s', None) \<and> queue s' = rest
           \<and> processing s' = processing s
           \<and> refill_rate (token_bucket s') = refill_rate (token_bucket s)
           \<and> resolved s' = resolved s @
                [(future r, respond env (length (calls s)) (prompt r) (max_tokens r) (temperature r))]"
proof -
  obtain w where w: "snd (get_wait_time (token_bucket s) (clock s) (estimated_tokens r)) = Inr w"
    using get_wait_time_no_error [OF assms(2)] by blast
  show ?thesis
    using assms w
    by (auto simp: drain_iteration_def drain_peek_def drain_admit_def drain_resolve_def
          make_api_call_def set_future_def sleep_def Let_def bucket_op_rate
          split: prod.splits sum.splits dest: get_wait_time_rate)
qed

lemma process_loop_fifo:
  assumes "queue s = rs" and "refill_rate (token_bucket s) \<noteq> 0"
    and "distinct (map future rs)"
    and "set (map future rs) \<inter> fst ` set (resolved s) = {}"
  shows "map fst (resolved (process_loop env s)) = map fst (resolved s) @ map future rs
         \<and> queue (process_loop env s) = [] \<and> \<not> processing (process_loop env s)"
  using assms
proof (induction rs arbitrary: s)
  case Nil
  then show ?case
    by (simp add: process_loop.simps [of env s])
next
  case (Cons r rest)
  have fresh: "future r \<notin> fst ` set (resolved s)"
    using Cons.prems(4) by auto
  obtain s' where s': "drain_iteration env s = (s', None)" "queue s' = rest"
      "refill_rate (token_bucket s') = refill_rate (token_bucket s)"
      "resolved s' = resolved s @
          [(future r, respond env (length (calls s)) (prompt r) (max_tokens r) (temperature r))]"
    using drain_iteration_head [OF Cons.prems(1,2) fresh, of env] by blast
  have loop: "process_loop env s = process_loop env s'"
    using Cons.prems(1) s'(1) by (simp add: process_loop.simps [of env s])
  have d: "distinct (map future rest)"
    using Cons.prems(3) by simp
  have f: "set (map future rest) \<inter> fst ` set (resolved s') = {}"
    using Cons.prems(3,4) s'(4) by auto
  have r: "refill_rate (token_bucket s') \<noteq> 0"
    using s'(3) Cons.prems(2) by simp
  show ?case
    using Cons.IH [OF s'(2) r d f] loop s'(4) by simp
qed

lemma process_queue_fifo:
  assumes "refill_rate (token_bucket s) \<noteq> 0"
    and "distinct (map future (queue s))"
    and "set (map future (queue s)) \<inter> fst ` set (resolved s) = {}"
  shows "map fst (resolved (process_queue env s)) = map fst (resolved s) @ map future (queue s)"
  using process_loop_fifo [of "s\<lparr>processing := True\<rparr>" "queue s" env] assms
  by (simp add: process_queue_def)

section \<open>Properties of the queue under the event loop\<close>

lemmas loop_defs = init_loop_def init_queue_def init_bucket_def submit_step_def create_future_def
  enqueue_def estimate_tokens_def set_task_def drain_continue_def drain_start_call_def
  drain_finish_call_def drain_peek_def drain_admit_def drain_resolve_def set_future_def
  log_call_def get_wait_time_def consume_def refill_def in_flight_def Let_def

text \<open>
  C1 (one call in flight).  \<open>processing\<close> is set by \<open>_process_queue\<close> itself when
  the task first runs (line 298), not by \<open>add_request\<close> when it creates the task (line
  153).  Two callers that reach \<open>add_request\<close> before the first task has run (as the
  two coroutines of \<open>asyncio.gather(q.add_request("a"), q.add_request("b"))\<close> on a new
  queue do: the event loop runs its ready tasks in the order they were scheduled) both
  read \<open>processing = False\<close> and both create a task.  Each task then pops one request
  and awaits its own call of the provider: two calls are in flight.
\<close>

theorem two_drain_loops_two_calls:
  "map_option tasks (run_events (init_loop 30000 0)
      [Submit ''a'' 4000 (1 / 5), Submit ''b'' 4000 (1 / 5)]) = Some [Created, Created]
   \<and> map_option (processing \<circ> qs) (run_events (init_loop 30000 0)
      [Submit ''a'' 4000 (1 / 5), Submit ''b'' 4000 (1 / 5)]) = Some False
   \<and> map_option (map prompt \<circ> in_flight) (run_events (init_loop 30000 0)
      [Submit ''a'' 4000 (1 / 5), Submit ''b'' 4000 (1 / 5), Run 0, Run 1]) = Some [''a'', ''b'']"
  by (simp add: loop_defs)

text \<open>
  C8 (FIFO drain).  In the same run the bucket holds 30000 tokens, enough for both
  requests, and the futures are enqueued in the order 0, 1.  The two calls run in two
  worker threads; when the provider answers the second call first, future 1 is
  resolved before future 0.
\<close>

theorem two_drain_loops_out_of_order:
  "map_option (map future \<circ> queue \<circ> qs) (run_events (init_loop 30000 0)
      [Submit ''a'' 4000 (1 / 5), Submit ''b'' 4000 (1 / 5)]) = Some [0, 1]
   \<and> map_option (tokens \<circ> token_bucket \<circ> qs) (run_events (init_loop 30000 0)
      [Submit ''a'' 4000 (1 / 5), Submit ''b'' 4000 (1 / 5)]) = Some 30000
   \<and> map_option (resolved \<circ> qs) (run_events (init_loop 30000 0)
      [Submit ''a'' 4000 (1 / 5), Submit ''b'' 4000 (1 / 5), Run 0, Run 1,
       Complete 1 (Inr ''answer b''), Complete 0 (Inr ''answer a'')])
     = Some [(1, Inr ''answer b''), (0, Inr ''answer a'')]"
  by (simp add: loop_defs)

end
